theory Spec2Isabelle
  imports Main
begin

section \<open>The worker pool of worker-pool/workerpool/pool.go\<close>

text \<open>
  The pool is a concurrent Go program: the callers of \<open>Submit\<close> and \<open>Shutdown\<close>, the
  worker goroutines and the goroutine that waits for the wait group all run in
  parallel and meet only at the channel \<open>jobs\<close>, the atomic counters, the flag
  \<open>closed\<close>, the \<open>sync.Once\<close>, the wait group and the worker context. The model is an
  interleaving transition system: every goroutine has a program counter, and one
  transition executes one operation on the shared memory (a channel operation, an atomic
  load, store or add, a read of the context, an operation of the \<open>Once\<close> or of the wait
  group), together with the local statements and the \<open>Printf\<close> that follow it in the
  source. What the environment decides (which call arrives, when a caller's context ends,
  which ready case a \<open>select\<close> takes, when the timer of \<open>time.After\<close> fires, when and with
  which error a job body returns) is the label of the transition.

  The counters are \<open>int64\<close> in the source and \<open>int\<close> here: a counter grows by one per
  event, so the wrap-around at \<open>2^63\<close> is out of reach of any run.
\<close>

subsection \<open>Errors and panics\<close>

text \<open>
  The error values the package creates or passes on. \<open>ErrPoolClosed\<close> and
  \<open>ErrShutdownTimeout\<close> are the two sentinels of the \<open>var\<close> block at the end of pool.go;
  \<open>Canceled\<close> and \<open>DeadlineExceeded\<close> are the errors of package \<open>context\<close>; \<open>Other\<close> is any
  error a job or a caller's own context type reports; \<open>Errorf msg e\<close> is the value of
  \<open>fmt.Errorf(msg + "%w", e)\<close>, which wraps \<open>e\<close>.
\<close>

datatype error =
    ErrPoolClosed
  | ErrShutdownTimeout
  | Canceled
  | DeadlineExceeded
  | Other string
  | Errorf string error

text \<open>\<open>errors.Is\<close>: the error itself or an error it wraps is the target.\<close>

fun errors_Is :: "error \<Rightarrow> error \<Rightarrow> bool" where
  "errors_Is (Errorf msg e) target = (Errorf msg e = target \<or> errors_Is e target)"
| "errors_Is e target = (e = target)"

text \<open>The run-time panics the operations of the pool can raise.\<close>

datatype panic =
    MakechanSizeOutOfRange
  | NilDereference
  | SendOnClosedChannel
  | CloseOfClosedChannel
  | NegativeWaitGroupCounter
  | JobPanic

subsection \<open>Config and withDefaults\<close>

text \<open>
  \<open>Workers\<close> and \<open>QueueSize\<close> are Go \<open>int\<close>s, \<open>ShutdownTimeout\<close> is a \<open>time.Duration\<close>
  (nanoseconds), \<open>Logger\<close> is a \<open>*log.Logger\<close>: \<open>None\<close> is \<open>nil\<close>, \<open>Some l\<close> the logger at
  address \<open>l\<close>.
\<close>

record Config =
  Workers :: int
  QueueSize :: int
  ShutdownTimeout :: int
  Logger :: "nat option"

definition Second :: int where
  "Second = 1000000000"

text \<open>The address of the standard logger that \<open>log.Default()\<close> returns.\<close>

definition log_Default :: nat where
  "log_Default = 0"

text \<open>
  \<open>withDefaults\<close> has a pointer receiver, and \<open>New\<close> calls it on its own parameter.
  Whether the caller's \<open>Config\<close> can change is a question of aliasing, so the \<open>Config\<close>
  variables live in a memory: a list of cells, a pointer being an index.
\<close>

type_synonym memory = "Config list"

definition load :: "memory \<Rightarrow> nat \<Rightarrow> Config option" where
  "load mem a = (if a < length mem then Some (mem ! a) else None)"

text \<open>
  \<open>out := *c\<close> copies the cell; the three \<open>if\<close>s assign to the copy; the copy is
  returned. Nothing is written through \<open>c\<close>.
\<close>

definition withDefaults :: "memory \<Rightarrow> nat \<Rightarrow> panic + Config" where
  "withDefaults mem c =
     (case load mem c of
        None \<Rightarrow> Inl NilDereference
      | Some v \<Rightarrow>
          (let out = v;
               out = (if Workers out \<le> 0 then out\<lparr>Workers := 1\<rparr> else out);
               out = (if ShutdownTimeout out \<le> 0
                      then out\<lparr>ShutdownTimeout := 30 * Second\<rparr> else out);
               out = (if Logger out = None then out\<lparr>Logger := Some log_Default\<rparr> else out)
           in Inr out))"

subsection \<open>Metrics, the channel and the Pool\<close>

record Metrics =
  Submitted :: int
  Started :: int
  Succeeded :: int
  Failed :: int
  Dropped :: int

text \<open>A job is a function value; the pool never looks inside, so a job is a name here.\<close>

type_synonym Job = nat

text \<open>
  The channel \<open>jobs\<close>: its capacity, its buffer and whether it is closed. An element of the
  buffer is the job together with the index of the \<open>Submit\<close> call that sent it; the index
  is bookkeeping of the model (nothing reads it) that lets a theorem speak of
  ``the job of this call''.
\<close>

record chan =
  ch_cap :: int
  ch_buf :: "(nat \<times> Job) list"
  ch_closed :: bool

text \<open>
  \<open>make(chan Job, size)\<close> panics when the size is negative or larger than the run time
  can allocate; that limit depends on the platform and is the parameter \<open>maxcap\<close>.
\<close>

definition makechan :: "int \<Rightarrow> int \<Rightarrow> panic + chan" where
  "makechan maxcap sz =
     (if sz < 0 \<or> maxcap < sz then Inl MakechanSizeOutOfRange
      else Inr \<lparr>ch_cap = sz, ch_buf = [], ch_closed = False\<rparr>)"

text \<open>
  \<open>sync.Once\<close>: not yet run, running in the call with the given index (the other callers
  of \<open>Do\<close> wait), or done (the index remembers which call ran the function).
\<close>

datatype once_state = OnceIdle | OnceRunning nat | OnceDone nat

text \<open>
  The fields of \<open>struct Pool\<close>. \<open>workerCtx\<close> is the value of \<open>p.workerCtx.Err()\<close>: \<open>None\<close>
  until \<open>cancelWorkers\<close> is called, \<open>Some Canceled\<close> from then on.
\<close>

record Pool =
  cfg :: Config
  jobs :: chan
  wg :: int
  metrics :: Metrics
  workerCtx :: "error option"
  once :: once_state
  closed :: int

subsection \<open>The goroutines\<close>

text \<open>
  A worker (\<open>runWorker\<close>): before its first \<open>Printf\<close>; at the receive of \<open>range p.jobs\<close>;
  holding a job and about to read \<open>p.workerCtx.Err()\<close>; about to add to \<open>Failed\<close> for a
  skipped job; about to add to \<open>Started\<close>; inside the job body; back from the job with
  its result; after the loop and about to run the deferred \<open>p.wg.Done()\<close>; gone.
\<close>

datatype worker =
    WStart
  | WFetch
  | WCheck "nat \<times> Job"
  | WSkip "nat \<times> Job"
  | WBegin "nat \<times> Job"
  | WRun "nat \<times> Job"
  | WRet "nat \<times> Job" "error option"
  | WDone
  | WExited

text \<open>
  A call of \<open>Submit\<close>: about to load \<open>closed\<close>; about to add to \<open>Dropped\<close> and return
  \<open>ErrPoolClosed\<close>; about to add to \<open>Submitted\<close>; in the \<open>select\<close>; in the \<open>ctx.Done()\<close>
  case and about to add to \<open>Dropped\<close>; returned with a result (\<open>None\<close> is \<open>nil\<close>).
\<close>

datatype submit_pc =
    SLoadClosed
  | SDropClosed
  | SAddSubmitted
  | SSelect
  | SDropCancel
  | SReturned "error option"

text \<open>\<open>s_ctx\<close> is the value of \<open>ctx.Err()\<close> of the caller's context, \<open>s_job\<close> the job.\<close>

record submit_call =
  s_pc :: submit_pc
  s_ctx :: "error option"
  s_job :: Job

text \<open>
  A call of \<open>Shutdown\<close>: at \<open>p.once.Do\<close>; inside the function of the \<open>Once\<close> before the
  store to \<open>closed\<close>, before \<open>close(p.jobs)\<close>, before the \<open>go\<close> statement, in the
  \<open>select\<close>, before \<open>p.cancelWorkers()\<close>, at \<open><-done\<close> of the timeout case; returned.
  \<open>shutdownErr\<close> is the local variable of the call.
\<close>

datatype shutdown_pc =
    DOnce
  | DStoreClosed
  | DCloseJobs
  | DGoWait
  | DSelect
  | DCancel
  | DWaitDone
  | DReturned "error option"

record shutdown_call =
  d_pc :: shutdown_pc
  shutdownErr :: "error option"

text \<open>
  The goroutine \<open>go func() { p.wg.Wait(); close(done) }()\<close>: not started; in \<open>Wait\<close>;
  about to close \<open>done\<close>; gone (\<open>done\<close> is closed).
\<close>

datatype waiter = TNone | TWait | TClose | TExited

text \<open>The lines the pool prints, in the order of the \<open>Printf\<close> calls.\<close>

datatype log_line =
    LogStarting int int int
  | LogWorkerStarted nat
  | LogSkipping nat
  | LogJobFailed nat error
  | LogWorkerExited nat
  | LogShutdownInitiated
  | LogShutdownClean
  | LogShutdownTimeout int
  | LogShutdownForced

text \<open>
  The whole program: the pool, its goroutines, the calls in progress, the log, the
  number of calls of \<open>p.cancelWorkers\<close> made so far (a history variable: no transition
  reads it) and the panic that ended the program, if any.
\<close>

record System = Pool +
  workers :: "worker list"
  submits :: "submit_call list"
  shutdowns :: "shutdown_call list"
  waiter :: waiter
  log :: "log_line list"
  cancelCalls :: nat
  panicked :: "panic option"

subsection \<open>New\<close>

text \<open>
  The loop \<open>for i := 0; i < cfg.Workers; i++ { p.wg.Add(1); go p.runWorker(i) }\<close>, with
  the number of iterations left, the counter of the wait group and the workers started.
\<close>

fun spawn :: "nat \<Rightarrow> int \<times> worker list \<Rightarrow> int \<times> worker list" where
  "spawn 0 acc = acc"
| "spawn (Suc k) (g, ws) = spawn k (g + 1, ws @ [WStart])"

text \<open>
  \<open>New(cfg)\<close>: the argument is copied into the parameter, a fresh cell at the end of the
  memory; \<open>cfg = cfg.withDefaults()\<close> passes the address of that cell and assigns the
  result to it; then the context, the channel, the \<open>Printf\<close> and the workers. The result
  is the memory after the call and the running program.
\<close>

definition New :: "int \<Rightarrow> memory \<Rightarrow> Config \<Rightarrow> panic + (memory \<times> System)" where
  "New maxcap mem arg =
     (let p = length mem;
          mem1 = mem @ [arg]
      in case withDefaults mem1 p of
           Inl e \<Rightarrow> Inl e
         | Inr out \<Rightarrow>
             (let mem2 = mem1[p := out];
                  c = out
              in case makechan maxcap (QueueSize c) of
                   Inl e \<Rightarrow> Inl e
                 | Inr ch \<Rightarrow>
                     (case Logger c of
                        None \<Rightarrow> Inl NilDereference
                      | Some l \<Rightarrow>
                          (let (g, ws) = spawn (nat (Workers c)) (0, [])
                           in Inr (mem2,
                                \<lparr>cfg = c, jobs = ch, wg = g,
                                 metrics = \<lparr>Submitted = 0, Started = 0, Succeeded = 0,
                                            Failed = 0, Dropped = 0\<rparr>,
                                 workerCtx = None, once = OnceIdle, closed = 0,
                                 workers = ws, submits = [], shutdowns = [],
                                 waiter = TNone,
                                 log = [LogStarting (Workers c) (QueueSize c)
                                          (ShutdownTimeout c)],
                                 cancelCalls = 0, panicked = None\<rparr>)))))"

subsection \<open>Submit\<close>

text \<open>
  The statements of \<open>Submit\<close> that run without waiting: the load of \<open>closed\<close>, the add
  to \<open>Dropped\<close> with \<open>return ErrPoolClosed\<close>, the add to \<open>Submitted\<close>, and in the
  \<open>ctx.Done()\<close> case the add to \<open>Dropped\<close> with the return of the wrapped \<open>ctx.Err()\<close>
  (which is not \<open>nil\<close> once \<open>Done\<close> is closed). In the \<open>select\<close> the call waits for one
  of its cases.
\<close>

definition Submit_step :: "nat \<Rightarrow> System \<Rightarrow> System option" where
  "Submit_step c s =
     (if length (submits s) \<le> c then None
      else case s_pc (submits s ! c) of
        SLoadClosed \<Rightarrow>
          Some (s\<lparr>submits := (submits s)[c := (submits s ! c)
                  \<lparr>s_pc := (if closed s = 1 then SDropClosed else SAddSubmitted)\<rparr>]\<rparr>)
      | SDropClosed \<Rightarrow>
          Some (s\<lparr>metrics := (metrics s)\<lparr>Dropped := Dropped (metrics s) + 1\<rparr>,
                  submits := (submits s)[c := (submits s ! c)
                    \<lparr>s_pc := SReturned (Some ErrPoolClosed)\<rparr>]\<rparr>)
      | SAddSubmitted \<Rightarrow>
          Some (s\<lparr>metrics := (metrics s)\<lparr>Submitted := Submitted (metrics s) + 1\<rparr>,
                  submits := (submits s)[c := (submits s ! c)\<lparr>s_pc := SSelect\<rparr>]\<rparr>)
      | SSelect \<Rightarrow> None
      | SDropCancel \<Rightarrow>
          (case s_ctx (submits s ! c) of
             None \<Rightarrow> None
           | Some e \<Rightarrow>
               Some (s\<lparr>metrics := (metrics s)\<lparr>Dropped := Dropped (metrics s) + 1\<rparr>,
                       submits := (submits s)[c := (submits s ! c)
                         \<lparr>s_pc := SReturned (Some (Errorf ''submit cancelled: '' e))\<rparr>]\<rparr>))
      | SReturned r \<Rightarrow> None)"

text \<open>
  The case \<open>p.jobs <- job\<close> of the \<open>select\<close>, into the buffer: a send on a closed channel
  panics; otherwise the case is ready when the buffer has room.
\<close>

definition Submit_send :: "nat \<Rightarrow> System \<Rightarrow> System option" where
  "Submit_send c s =
     (if length (submits s) \<le> c \<or> s_pc (submits s ! c) \<noteq> SSelect then None
      else if ch_closed (jobs s) then Some (s\<lparr>panicked := Some SendOnClosedChannel\<rparr>)
      else if int (length (ch_buf (jobs s))) < ch_cap (jobs s) then
        Some (s\<lparr>jobs := (jobs s)\<lparr>ch_buf := ch_buf (jobs s) @ [(c, s_job (submits s ! c))]\<rparr>,
                submits := (submits s)[c := (submits s ! c)\<lparr>s_pc := SReturned None\<rparr>]\<rparr>)
      else None)"

text \<open>
  The same case when a worker waits in its receive (the buffer is empty then): the job
  goes to that worker directly. This is the only way through a channel of capacity 0.
\<close>

definition Submit_handoff :: "nat \<Rightarrow> nat \<Rightarrow> System \<Rightarrow> System option" where
  "Submit_handoff c w s =
     (if length (submits s) \<le> c \<or> s_pc (submits s ! c) \<noteq> SSelect then None
      else if ch_closed (jobs s) \<or> ch_buf (jobs s) \<noteq> [] then None
      else if length (workers s) \<le> w \<or> workers s ! w \<noteq> WFetch then None
      else Some (s\<lparr>workers := (workers s)[w := WCheck (c, s_job (submits s ! c))],
                   submits := (submits s)[c := (submits s ! c)\<lparr>s_pc := SReturned None\<rparr>]\<rparr>))"

text \<open>The case \<open><-ctx.Done()\<close> of the \<open>select\<close>: ready when the caller's context has ended.\<close>

definition Submit_cancel :: "nat \<Rightarrow> System \<Rightarrow> System option" where
  "Submit_cancel c s =
     (if length (submits s) \<le> c \<or> s_pc (submits s ! c) \<noteq> SSelect then None
      else if s_ctx (submits s ! c) = None then None
      else Some (s\<lparr>submits := (submits s)[c := (submits s ! c)\<lparr>s_pc := SDropCancel\<rparr>]\<rparr>))"

subsection \<open>runWorker\<close>

text \<open>
  One step of worker \<open>w\<close>. The receive of \<open>range p.jobs\<close> takes the head of the buffer,
  leaves the loop when the channel is closed and empty, and waits otherwise. Inside the
  job body the worker waits for the job to return.
\<close>

definition runWorker_step :: "nat \<Rightarrow> System \<Rightarrow> System option" where
  "runWorker_step w s =
     (if length (workers s) \<le> w then None
      else case workers s ! w of
        WStart \<Rightarrow>
          Some (s\<lparr>workers := (workers s)[w := WFetch],
                  log := log s @ [LogWorkerStarted w]\<rparr>)
      | WFetch \<Rightarrow>
          (case ch_buf (jobs s) of
             j # rest \<Rightarrow>
               Some (s\<lparr>jobs := (jobs s)\<lparr>ch_buf := rest\<rparr>,
                       workers := (workers s)[w := WCheck j]\<rparr>)
           | [] \<Rightarrow>
               if ch_closed (jobs s)
               then Some (s\<lparr>workers := (workers s)[w := WDone],
                            log := log s @ [LogWorkerExited w]\<rparr>)
               else None)
      | WCheck j \<Rightarrow>
          (if workerCtx s \<noteq> None
           then Some (s\<lparr>workers := (workers s)[w := WSkip j],
                        log := log s @ [LogSkipping w]\<rparr>)
           else Some (s\<lparr>workers := (workers s)[w := WBegin j]\<rparr>))
      | WSkip j \<Rightarrow>
          Some (s\<lparr>metrics := (metrics s)\<lparr>Failed := Failed (metrics s) + 1\<rparr>,
                  workers := (workers s)[w := WFetch]\<rparr>)
      | WBegin j \<Rightarrow>
          Some (s\<lparr>metrics := (metrics s)\<lparr>Started := Started (metrics s) + 1\<rparr>,
                  workers := (workers s)[w := WRun j]\<rparr>)
      | WRun j \<Rightarrow> None
      | WRet j r \<Rightarrow>
          (case r of
             Some err \<Rightarrow>
               Some (s\<lparr>metrics := (metrics s)\<lparr>Failed := Failed (metrics s) + 1\<rparr>,
                       workers := (workers s)[w := WFetch],
                       log := log s @ [LogJobFailed w err]\<rparr>)
           | None \<Rightarrow>
               Some (s\<lparr>metrics := (metrics s)\<lparr>Succeeded := Succeeded (metrics s) + 1\<rparr>,
                       workers := (workers s)[w := WFetch]\<rparr>))
      | WDone \<Rightarrow>
          (if wg s - 1 < 0 then Some (s\<lparr>panicked := Some NegativeWaitGroupCounter\<rparr>)
           else Some (s\<lparr>wg := wg s - 1, workers := (workers s)[w := WExited]\<rparr>))
      | WExited \<Rightarrow> None)"

text \<open>The job that worker \<open>w\<close> runs returns \<open>r\<close> (\<open>None\<close> is \<open>nil\<close>), or panics.\<close>

definition Job_returns :: "nat \<Rightarrow> error option \<Rightarrow> System \<Rightarrow> System option" where
  "Job_returns w r s =
     (if length (workers s) \<le> w then None
      else case workers s ! w of
        WRun j \<Rightarrow> Some (s\<lparr>workers := (workers s)[w := WRet j r]\<rparr>)
      | _ \<Rightarrow> None)"

definition Job_panics :: "nat \<Rightarrow> System \<Rightarrow> System option" where
  "Job_panics w s =
     (if length (workers s) \<le> w then None
      else case workers s ! w of
        WRun j \<Rightarrow> Some (s\<lparr>panicked := Some JobPanic\<rparr>)
      | _ \<Rightarrow> None)"

subsection \<open>Shutdown\<close>

text \<open>
  One step of the call \<open>d\<close> of \<open>Shutdown\<close>. At \<open>p.once.Do\<close> the first call enters the
  function, a call that finds the \<open>Once\<close> running waits, and a call that finds it done
  goes on to \<open>return shutdownErr\<close> with its own, untouched, local variable. In the
  \<open>select\<close> the call waits for one of its cases; at \<open><-done\<close> it waits for the channel
  \<open>done\<close> to be closed, which is the last step of the waiting goroutine.
\<close>

definition Shutdown_step :: "nat \<Rightarrow> System \<Rightarrow> System option" where
  "Shutdown_step d s =
     (if length (shutdowns s) \<le> d then None
      else case d_pc (shutdowns s ! d) of
        DOnce \<Rightarrow>
          (case once s of
             OnceIdle \<Rightarrow>
               Some (s\<lparr>once := OnceRunning d,
                       shutdowns := (shutdowns s)[d := (shutdowns s ! d)\<lparr>d_pc := DStoreClosed\<rparr>],
                       log := log s @ [LogShutdownInitiated]\<rparr>)
           | OnceRunning r \<Rightarrow> None
           | OnceDone r \<Rightarrow>
               Some (s\<lparr>shutdowns := (shutdowns s)[d := (shutdowns s ! d)
                       \<lparr>d_pc := DReturned (shutdownErr (shutdowns s ! d))\<rparr>]\<rparr>))
      | DStoreClosed \<Rightarrow>
          Some (s\<lparr>closed := 1,
                  shutdowns := (shutdowns s)[d := (shutdowns s ! d)\<lparr>d_pc := DCloseJobs\<rparr>]\<rparr>)
      | DCloseJobs \<Rightarrow>
          (if ch_closed (jobs s) then Some (s\<lparr>panicked := Some CloseOfClosedChannel\<rparr>)
           else Some (s\<lparr>jobs := (jobs s)\<lparr>ch_closed := True\<rparr>,
                        shutdowns := (shutdowns s)[d := (shutdowns s ! d)\<lparr>d_pc := DGoWait\<rparr>]\<rparr>))
      | DGoWait \<Rightarrow>
          Some (s\<lparr>waiter := TWait,
                  shutdowns := (shutdowns s)[d := (shutdowns s ! d)\<lparr>d_pc := DSelect\<rparr>]\<rparr>)
      | DSelect \<Rightarrow> None
      | DCancel \<Rightarrow>
          Some (s\<lparr>workerCtx := (if workerCtx s = None then Some Canceled else workerCtx s),
                  cancelCalls := cancelCalls s + 1,
                  shutdowns := (shutdowns s)[d := (shutdowns s ! d)\<lparr>d_pc := DWaitDone\<rparr>]\<rparr>)
      | DWaitDone \<Rightarrow>
          (if waiter s = TExited
           then Some (s\<lparr>once := OnceDone d,
                        shutdowns := (shutdowns s)[d := (shutdowns s ! d)
                          \<lparr>d_pc := DReturned (Some ErrShutdownTimeout),
                           shutdownErr := Some ErrShutdownTimeout\<rparr>],
                        log := log s @ [LogShutdownForced]\<rparr>)
           else None)
      | DReturned r \<Rightarrow> None)"

text \<open>
  The case \<open><-done\<close> of the \<open>select\<close>: the function of the \<open>Once\<close> ends and the call returns
  its \<open>shutdownErr\<close>, which is still \<open>nil\<close>.
\<close>

definition Shutdown_done :: "nat \<Rightarrow> System \<Rightarrow> System option" where
  "Shutdown_done d s =
     (if length (shutdowns s) \<le> d \<or> d_pc (shutdowns s ! d) \<noteq> DSelect then None
      else if waiter s \<noteq> TExited then None
      else Some (s\<lparr>once := OnceDone d,
                   shutdowns := (shutdowns s)[d := (shutdowns s ! d)
                     \<lparr>d_pc := DReturned (shutdownErr (shutdowns s ! d))\<rparr>],
                   log := log s @ [LogShutdownClean]\<rparr>))"

text \<open>The case \<open><-time.After(p.cfg.ShutdownTimeout)\<close>: the timer has fired.\<close>

definition Shutdown_timeout :: "nat \<Rightarrow> System \<Rightarrow> System option" where
  "Shutdown_timeout d s =
     (if length (shutdowns s) \<le> d \<or> d_pc (shutdowns s ! d) \<noteq> DSelect then None
      else Some (s\<lparr>shutdowns := (shutdowns s)[d := (shutdowns s ! d)\<lparr>d_pc := DCancel\<rparr>],
                   log := log s @ [LogShutdownTimeout (ShutdownTimeout (cfg s))]\<rparr>))"

text \<open>The waiting goroutine: \<open>p.wg.Wait()\<close> returns when the counter is 0; then \<open>close(done)\<close>.\<close>

definition Waiter_step :: "System \<Rightarrow> System option" where
  "Waiter_step s =
     (case waiter s of
        TNone \<Rightarrow> None
      | TWait \<Rightarrow> if wg s = 0 then Some (s\<lparr>waiter := TClose\<rparr>) else None
      | TClose \<Rightarrow> Some (s\<lparr>waiter := TExited\<rparr>)
      | TExited \<Rightarrow> None)"

subsection \<open>The transitions of the program\<close>

text \<open>
  \<open>CallSubmit ctx job\<close> and \<open>CallShutdown\<close> start a call (\<open>ctx\<close> is the state of the
  caller's context at that moment); \<open>CtxDone c e\<close> ends the context of the \<open>Submit\<close> call
  \<open>c\<close> with the reason \<open>e\<close>. The other events name the goroutine that moves and, for a
  \<open>select\<close>, the case taken.
\<close>

datatype event =
    CallSubmit "error option" Job
  | CtxDone nat error
  | SubmitStep nat
  | SubmitSend nat
  | SubmitHandoff nat nat
  | SubmitCancel nat
  | CallShutdown
  | ShutdownStep nat
  | ShutdownDone nat
  | ShutdownTimeoutFires nat
  | WaiterStep
  | WorkerStep nat
  | JobReturns nat "error option"
  | JobPanics nat

definition Ctx_done :: "nat \<Rightarrow> error \<Rightarrow> System \<Rightarrow> System option" where
  "Ctx_done c e s =
     (if length (submits s) \<le> c \<or> s_ctx (submits s ! c) \<noteq> None then None
      else Some (s\<lparr>submits := (submits s)[c := (submits s ! c)\<lparr>s_ctx := Some e\<rparr>]\<rparr>))"

text \<open>A transition; \<open>None\<close> when the event cannot happen in the state. A panic ends the program.\<close>

definition step :: "event \<Rightarrow> System \<Rightarrow> System option" where
  "step ev s =
     (if panicked s \<noteq> None then None
      else case ev of
        CallSubmit ctx job \<Rightarrow>
          Some (s\<lparr>submits := submits s @ [\<lparr>s_pc = SLoadClosed, s_ctx = ctx, s_job = job\<rparr>]\<rparr>)
      | CtxDone c e \<Rightarrow> Ctx_done c e s
      | SubmitStep c \<Rightarrow> Submit_step c s
      | SubmitSend c \<Rightarrow> Submit_send c s
      | SubmitHandoff c w \<Rightarrow> Submit_handoff c w s
      | SubmitCancel c \<Rightarrow> Submit_cancel c s
      | CallShutdown \<Rightarrow>
          Some (s\<lparr>shutdowns := shutdowns s @ [\<lparr>d_pc = DOnce, shutdownErr = None\<rparr>]\<rparr>)
      | ShutdownStep d \<Rightarrow> Shutdown_step d s
      | ShutdownDone d \<Rightarrow> Shutdown_done d s
      | ShutdownTimeoutFires d \<Rightarrow> Shutdown_timeout d s
      | WaiterStep \<Rightarrow> Waiter_step s
      | WorkerStep w \<Rightarrow> runWorker_step w s
      | JobReturns w r \<Rightarrow> Job_returns w r s
      | JobPanics w \<Rightarrow> Job_panics w s)"

text \<open>A run: the events of a list, one after the other.\<close>

fun run :: "event list \<Rightarrow> System \<Rightarrow> System option" where
  "run [] s = Some s"
| "run (ev # evs) s = (case step ev s of None \<Rightarrow> None | Some s' \<Rightarrow> run evs s')"

text \<open>\<open>Metrics()\<close>: a copy of the five counters.\<close>

definition Metrics_of :: "System \<Rightarrow> Metrics" where
  "Metrics_of s =
     \<lparr>Submitted = Submitted (metrics s), Started = Started (metrics s),
      Succeeded = Succeeded (metrics s), Failed = Failed (metrics s),
      Dropped = Dropped (metrics s)\<rparr>"

text \<open>
  The program after \<open>New(c)\<close> in an empty memory and the events \<open>evs\<close>: \<open>None\<close> when \<open>New\<close>
  panics or an event of the list cannot happen. The states \<open>exec maxcap c evs\<close> are the
  reachable states of a pool.
\<close>

definition exec :: "int \<Rightarrow> Config \<Rightarrow> event list \<Rightarrow> System option" where
  "exec maxcap c evs = (case New maxcap [] c of Inl p \<Rightarrow> None | Inr (mem, s) \<Rightarrow> run evs s)"

subsection \<open>Invariants of the reachable states\<close>

text \<open>A worker that has not exited counts 1 in the wait group.\<close>

definition live :: "worker \<Rightarrow> int" where
  "live x = (if x = WExited then 0 else 1)"

text \<open>
  The counter of the wait group is the number of workers that have not exited, and the
  waiting goroutine is past \<open>Wait\<close> only when that number is 0.
\<close>

definition Inv_wg :: "System \<Rightarrow> bool" where
  "Inv_wg s = (wg s = sum_list (map live (workers s)) \<and>
               (waiter s = TClose \<or> waiter s = TExited \<longrightarrow> wg s = 0))"

text \<open>
  What the log tells of \<open>Shutdown\<close>: whether the \<open>select\<close> took the timeout case or the
  \<open>done\<close> case (each case starts with its own \<open>Printf\<close>), and how often the function of
  the \<open>Once\<close> was entered (its first statement is the \<open>Printf\<close> of ``shutdown initiated'').
\<close>

fun is_timeout_line :: "log_line \<Rightarrow> bool" where
  "is_timeout_line (LogShutdownTimeout t) = True"
| "is_timeout_line l = False"

definition timeout_taken :: "System \<Rightarrow> bool" where
  "timeout_taken s = list_ex is_timeout_line (log s)"

definition clean_taken :: "System \<Rightarrow> bool" where
  "clean_taken s = (LogShutdownClean \<in> set (log s))"

definition initiated :: "System \<Rightarrow> nat" where
  "initiated s = count_list (log s) LogShutdownInitiated"

text \<open>
  What holds while the call that runs the function of the \<open>Once\<close> is at a given place: the
  flag \<open>closed\<close>, whether \<open>jobs\<close> is closed, the waiting goroutine, the worker context, the
  number of calls of \<open>cancelWorkers\<close>, and whether the timeout case was taken.
\<close>

fun running_ok ::
  "shutdown_pc \<Rightarrow> int \<Rightarrow> bool \<Rightarrow> waiter \<Rightarrow> error option \<Rightarrow> nat \<Rightarrow> bool \<Rightarrow> bool" where
  "running_ok DStoreClosed cl chc wt ctx n tmo =
     (\<not> chc \<and> wt = TNone \<and> ctx = None \<and> n = 0 \<and> \<not> tmo)"
| "running_ok DCloseJobs cl chc wt ctx n tmo =
     (cl = 1 \<and> \<not> chc \<and> wt = TNone \<and> ctx = None \<and> n = 0 \<and> \<not> tmo)"
| "running_ok DGoWait cl chc wt ctx n tmo =
     (cl = 1 \<and> chc \<and> wt = TNone \<and> ctx = None \<and> n = 0 \<and> \<not> tmo)"
| "running_ok DSelect cl chc wt ctx n tmo =
     (cl = 1 \<and> chc \<and> wt \<noteq> TNone \<and> ctx = None \<and> n = 0 \<and> \<not> tmo)"
| "running_ok DCancel cl chc wt ctx n tmo =
     (cl = 1 \<and> chc \<and> wt \<noteq> TNone \<and> ctx = None \<and> n = 0 \<and> tmo)"
| "running_ok DWaitDone cl chc wt ctx n tmo =
     (cl = 1 \<and> chc \<and> wt \<noteq> TNone \<and> ctx = Some Canceled \<and> n = 1 \<and> tmo)"
| "running_ok DOnce cl chc wt ctx n tmo = False"
| "running_ok (DReturned r) cl chc wt ctx n tmo = False"

text \<open>
  The state of the \<open>Once\<close> against the calls of \<open>Shutdown\<close>: before the first call enters,
  nothing of the protocol has happened; while one call runs the function, every other
  call is still at \<open>p.once.Do\<close>; afterwards that call has returned \<open>nil\<close> through the
  \<open>done\<close> case or \<open>ErrShutdownTimeout\<close> through the timeout case, and every other call
  is at \<open>p.once.Do\<close> or has returned \<open>nil\<close>.
\<close>

definition Inv_shutdown :: "System \<Rightarrow> bool" where
  "Inv_shutdown s =
     (case once s of
        OnceIdle \<Rightarrow>
          (\<forall>k \<in> set (shutdowns s). d_pc k = DOnce \<and> shutdownErr k = None) \<and>
          closed s = 0 \<and> \<not> ch_closed (jobs s) \<and> waiter s = TNone \<and>
          workerCtx s = None \<and> cancelCalls s = 0 \<and>
          initiated s = 0 \<and> \<not> timeout_taken s \<and> \<not> clean_taken s
      | OnceRunning d \<Rightarrow>
          d < length (shutdowns s) \<and>
          (\<forall>i < length (shutdowns s). i \<noteq> d \<longrightarrow>
             d_pc (shutdowns s ! i) = DOnce \<and> shutdownErr (shutdowns s ! i) = None) \<and>
          shutdownErr (shutdowns s ! d) = None \<and>
          initiated s = 1 \<and> \<not> clean_taken s \<and>
          running_ok (d_pc (shutdowns s ! d)) (closed s) (ch_closed (jobs s)) (waiter s)
            (workerCtx s) (cancelCalls s) (timeout_taken s)
      | OnceDone d \<Rightarrow>
          d < length (shutdowns s) \<and>
          (\<forall>i < length (shutdowns s). i \<noteq> d \<longrightarrow>
             (d_pc (shutdowns s ! i) = DOnce \<or> d_pc (shutdowns s ! i) = DReturned None) \<and>
             shutdownErr (shutdowns s ! i) = None) \<and>
          initiated s = 1 \<and>
          closed s = 1 \<and> ch_closed (jobs s) \<and> waiter s = TExited \<and>
          (d_pc (shutdowns s ! d) = DReturned None \<and> workerCtx s = None \<and>
             cancelCalls s = 0 \<and> clean_taken s \<and> \<not> timeout_taken s \<or>
           d_pc (shutdowns s ! d) = DReturned (Some ErrShutdownTimeout) \<and>
             workerCtx s = Some Canceled \<and> cancelCalls s = 1 \<and>
             timeout_taken s \<and> \<not> clean_taken s))"

text \<open>Where every call of \<open>Shutdown\<close> stands, in the order of the calls.\<close>

definition Shutdown_results :: "System \<Rightarrow> shutdown_pc list" where
  "Shutdown_results s = map d_pc (shutdowns s)"

text \<open>The job a worker has received and not finished with.\<close>

fun holds :: "worker \<Rightarrow> (nat \<times> Job) list" where
  "holds (WCheck j) = [j]"
| "holds (WSkip j) = [j]"
| "holds (WBegin j) = [j]"
| "holds (WRun j) = [j]"
| "holds (WRet j r) = [j]"
| "holds WStart = []"
| "holds WFetch = []"
| "holds WDone = []"
| "holds WExited = []"

text \<open>The jobs in the channel or in the hands of a worker.\<close>

definition in_flight :: "System \<Rightarrow> (nat \<times> Job) list" where
  "in_flight s = ch_buf (jobs s) @ concat (map holds (workers s))"

definition held :: "worker list \<Rightarrow> (nat \<times> Job) set" where
  "held ws = set (concat (map holds ws))"

text \<open>
  Every job in the channel or in the hands of a worker was sent by a call of \<open>Submit\<close>
  that has returned \<open>nil\<close>, and it is that call's job.
\<close>

definition sent_ok :: "submit_call list \<Rightarrow> nat \<times> Job \<Rightarrow> bool" where
  "sent_ok cs x = (fst x < length cs \<and> s_pc (cs ! fst x) = SReturned None \<and> s_job (cs ! fst x) = snd x)"

definition Inv_flight :: "System \<Rightarrow> bool" where
  "Inv_flight s = (\<forall>x \<in> set (in_flight s). sent_ok (submits s) x)"

text \<open>
  A call of \<open>Submit\<close> is in the \<open>ctx.Done()\<close> case only if its context has ended, and an
  error it has returned is \<open>ErrPoolClosed\<close> or wraps the \<open>Err()\<close> of its context.
\<close>

fun call_ok :: "submit_pc \<Rightarrow> error option \<Rightarrow> bool" where
  "call_ok SDropCancel ctx = (ctx \<noteq> None)"
| "call_ok (SReturned (Some r)) ctx =
     (r = ErrPoolClosed \<or>
      (case ctx of None \<Rightarrow> False | Some e \<Rightarrow> r = Errorf ''submit cancelled: '' e))"
| "call_ok (SReturned None) ctx = True"
| "call_ok SLoadClosed ctx = True"
| "call_ok SDropClosed ctx = True"
| "call_ok SAddSubmitted ctx = True"
| "call_ok SSelect ctx = True"

definition Inv_calls :: "System \<Rightarrow> bool" where
  "Inv_calls s = (\<forall>k \<in> set (submits s). call_ok (s_pc k) (s_ctx k))"

text \<open>
  \<open>counted\<close> is 1 for a call that is past its add to \<open>Submitted\<close> (it found the pool
  open), \<open>dropped\<close> is 1 for a call that has returned an error. The two counters are the
  sums over the calls.
\<close>

fun counted :: "submit_pc \<Rightarrow> int" where
  "counted SSelect = 1"
| "counted SDropCancel = 1"
| "counted (SReturned None) = 1"
| "counted (SReturned (Some ErrPoolClosed)) = 0"
| "counted (SReturned (Some e)) = 1"
| "counted SLoadClosed = 0"
| "counted SDropClosed = 0"
| "counted SAddSubmitted = 0"

fun dropped :: "submit_pc \<Rightarrow> int" where
  "dropped (SReturned (Some e)) = 1"
| "dropped pc = 0"

definition Inv_count :: "System \<Rightarrow> bool" where
  "Inv_count s =
     (Submitted (metrics s) = (\<Sum>k\<leftarrow>submits s. counted (s_pc k)) \<and>
      Dropped (metrics s) = (\<Sum>k\<leftarrow>submits s. dropped (s_pc k)))"

text \<open>The invariants together.\<close>

definition Inv :: "System \<Rightarrow> bool" where
  "Inv s = (Inv_wg s \<and> Inv_shutdown s \<and> Inv_flight s \<and> Inv_calls s \<and> Inv_count s)"


subsection \<open>A run with a forced shutdown\<close>

text \<open>
  One worker, a queue of capacity 1, a timeout of 50 ms. Job 7 goes to the worker and
  runs until its context is cancelled; job 8 waits in the queue. \<open>Shutdown\<close> is called, the
  timer fires before the worker is done, \<open>cancelWorkers\<close> is called; job 7 returns the
  context's error; the worker receives job 8, finds the context cancelled and skips
  it; the worker exits and \<open>Shutdown\<close> returns. Then \<open>Shutdown\<close> is called a second time.
\<close>

definition small_pool :: Config where
  "small_pool = \<lparr>Workers = 1, QueueSize = 1, ShutdownTimeout = 50000000, Logger = None\<rparr>"

definition forced_shutdown :: "event list" where
  "forced_shutdown =
     [WorkerStep 0,
      CallSubmit None 7, SubmitStep 0, SubmitStep 0, SubmitHandoff 0 0,
      WorkerStep 0, WorkerStep 0,
      CallSubmit None 8, SubmitStep 1, SubmitStep 1, SubmitSend 1,
      CallShutdown, ShutdownStep 0, ShutdownStep 0, ShutdownStep 0, ShutdownStep 0,
      ShutdownTimeoutFires 0, ShutdownStep 0,
      JobReturns 0 (Some Canceled), WorkerStep 0,
      WorkerStep 0, WorkerStep 0, WorkerStep 0,
      WorkerStep 0, WorkerStep 0,
      WaiterStep, WaiterStep, ShutdownStep 0,
      CallShutdown, ShutdownStep 1]"

subsection \<open>How a call of Submit moves\<close>

text \<open>
  The places a call of \<open>Submit\<close> can reach in one transition of the program, given the
  value of \<open>closed\<close>: it stays where it is, or it follows the control flow of \<open>Submit\<close>.
\<close>

definition pc_next :: "int \<Rightarrow> submit_pc \<Rightarrow> submit_pc \<Rightarrow> bool" where
  "pc_next cl p q =
     (q = p \<or>
      (case p of
         SLoadClosed \<Rightarrow> q = (if cl = 1 then SDropClosed else SAddSubmitted)
       | SDropClosed \<Rightarrow> q = SReturned (Some ErrPoolClosed)
       | SAddSubmitted \<Rightarrow> q = SSelect
       | SSelect \<Rightarrow> q = SReturned None \<or> q = SDropCancel
       | SDropCancel \<Rightarrow> (\<exists>e. q = SReturned (Some (Errorf ''submit cancelled: '' e)))
       | SReturned r \<Rightarrow> False))"

text \<open>The path of a call that finds the pool closed.\<close>

definition rejecting :: "submit_pc \<Rightarrow> bool" where
  "rejecting p = (p = SLoadClosed \<or> p = SDropClosed \<or> p = SReturned (Some ErrPoolClosed))"

subsection \<open>Two more runs\<close>

text \<open>
  In \<open>cancelled_submit\<close> a first job fills the queue of capacity 1 (the worker has not
  started to receive); a second call then waits in its \<open>select\<close>, its context
  expires, and the \<open>select\<close> takes the \<open>ctx.Done()\<close> case. In \<open>closed_pool\<close> a call of
  \<open>Shutdown\<close> has stored 1 in \<open>closed\<close>.
\<close>

definition cancelled_submit :: "event list" where
  "cancelled_submit =
     [CallSubmit None 7, SubmitStep 0, SubmitStep 0, SubmitSend 0,
      CallSubmit None 8, SubmitStep 1, SubmitStep 1, CtxDone 1 DeadlineExceeded,
      SubmitCancel 1]"

definition closed_pool :: "event list" where
  "closed_pool = [CallShutdown, ShutdownStep 0, ShutdownStep 0]"

subsection \<open>The counters of the workers\<close>

text \<open>
  A worker inside a job body or back from it has added to \<open>Started\<close> and not yet to
  \<open>Succeeded\<close> or \<open>Failed\<close>; a worker that has decided to skip a job has printed its
  line and not yet added to \<open>Failed\<close>; a worker that holds a job and has not decided, or
  is about to add to \<open>Started\<close>, holds a job that counts in neither. \<open>sent\<close> is 1 for a
  call of \<open>Submit\<close> that has handed its job to the channel. \<open>skipped\<close> is the number of
  jobs that workers have decided to skip: the number of ``skipping job'' lines in the log.
\<close>

fun running :: "worker \<Rightarrow> int" where
  "running (WRun j) = 1"
| "running (WRet j r) = 1"
| "running w = 0"

fun skipping :: "worker \<Rightarrow> int" where
  "skipping (WSkip j) = 1"
| "skipping w = 0"

fun pending :: "worker \<Rightarrow> int" where
  "pending (WCheck j) = 1"
| "pending (WBegin j) = 1"
| "pending w = 0"

fun sent :: "submit_pc \<Rightarrow> int" where
  "sent (SReturned None) = 1"
| "sent pc = 0"

fun is_skip_line :: "log_line \<Rightarrow> bool" where
  "is_skip_line (LogSkipping w) = True"
| "is_skip_line l = False"

definition skipped :: "System \<Rightarrow> int" where
  "skipped s = int (length (filter is_skip_line (log s)))"

text \<open>
  The finished and the running jobs against \<open>Started\<close> and the skipped ones; the started and
  the waiting jobs against the jobs sent; and no job is skipped while the worker context
  is not cancelled.
\<close>

definition Inv_metrics :: "System \<Rightarrow> bool" where
  "Inv_metrics s =
     (Succeeded (metrics s) + Failed (metrics s) +
        (\<Sum>w\<leftarrow>workers s. running w) + (\<Sum>w\<leftarrow>workers s. skipping w)
        = Started (metrics s) + skipped s \<and>
      Started (metrics s) + int (length (ch_buf (jobs s))) + (\<Sum>w\<leftarrow>workers s. pending w)
        \<le> (\<Sum>k\<leftarrow>submits s. sent (s_pc k)) \<and>
      (workerCtx s = None \<longrightarrow> skipped s = 0 \<and> (\<Sum>w\<leftarrow>workers s. skipping w) = 0))"

section \<open>Construction\<close>

lemma spawn_eq: "spawn k (g, ws) = (g + int k, ws @ replicate k WStart)"
proof (induction k arbitrary: g ws)
  case 0
  show ?case by simp
next
  case (Suc k)
  show ?case by (simp add: Suc.IH replicate_app_Cons_same)
qed

lemma withDefaults_last:
  "withDefaults (mem @ [c]) (length mem) =
     Inr \<lparr>Workers = (if Workers c \<le> 0 then 1 else Workers c), QueueSize = QueueSize c,
          ShutdownTimeout = (if ShutdownTimeout c \<le> 0 then 30 * Second else ShutdownTimeout c),
          Logger = (if Logger c = None then Some log_Default else Logger c)\<rparr>"
  by (cases c) (auto simp: withDefaults_def load_def Let_def)




text \<open>
  C10: \<open>New\<close> does not change the caller's \<open>Config\<close>. The argument is copied into the
  parameter, \<open>withDefaults\<close> copies the parameter again and assigns to that copy only, and
  the result is assigned to the parameter: every cell the memory had before the call
  (the caller's variable among them) holds after the call what it held before, all four
  fields.
\<close>

theorem New_leaves_caller_Config:
  assumes "New maxcap mem c = Inr (mem', s)" and "a < length mem"
  shows "load mem' a = load mem a"
  using assms
  by (auto simp: New_def withDefaults_last makechan_def load_def nth_append Let_def
      split: if_splits option.splits prod.splits)

theorem New_leaves_caller_Config_witness:
  "\<exists>mem' s. New 1000 [\<lparr>Workers = 0, QueueSize = 2, ShutdownTimeout = 0, Logger = None\<rparr>]
               \<lparr>Workers = 0, QueueSize = 2, ShutdownTimeout = 0, Logger = None\<rparr> = Inr (mem', s) \<and>
     load mem' 0 = Some \<lparr>Workers = 0, QueueSize = 2, ShutdownTimeout = 0, Logger = None\<rparr> \<and>
     cfg s = \<lparr>Workers = 1, QueueSize = 2, ShutdownTimeout = 30000000000,
              Logger = Some log_Default\<rparr>"
proof -
  let ?c = "\<lparr>Workers = 0, QueueSize = 2, ShutdownTimeout = 0, Logger = None\<rparr>"
  obtain mem' s where n: "New 1000 [?c] ?c = Inr (mem', s)"
    and c: "cfg s = \<lparr>Workers = 1, QueueSize = 2, ShutdownTimeout = 30000000000,
                     Logger = Some log_Default\<rparr>"
    by (simp add: New_def withDefaults_def load_def makechan_def Second_def)
  have "load mem' 0 = load [?c] 0"
    using New_leaves_caller_Config [OF n, of 0] by simp
  then have "load mem' 0 = Some ?c"
    by (simp add: load_def)
  with n c show ?thesis
    by blast
qed

section \<open>The invariants hold in every reachable state\<close>

lemmas log_defs = initiated_def timeout_taken_def clean_taken_def

lemmas step_defs = step_def Ctx_done_def Submit_step_def Submit_send_def Submit_handoff_def
  Submit_cancel_def Shutdown_step_def Shutdown_done_def Shutdown_timeout_def Waiter_step_def
  runWorker_step_def Job_returns_def Job_panics_def

lemma sum_list_map_update:
  fixes f :: "'a \<Rightarrow> int"
  shows "i < length xs \<Longrightarrow> sum_list (map f (xs[i := y])) = sum_list (map f xs) - f (xs ! i) + f y"
proof (induction xs arbitrary: i)
  case Nil
  then show ?case by simp
next
  case (Cons x xs)
  then show ?case by (cases i) auto
qed

lemma Inv_wg_step:
  assumes "Inv_wg s" and "step ev s = Some s'"
  shows "Inv_wg s'"
proof (cases ev)
  case (CallSubmit ctx job)
  with assms show ?thesis by (auto simp: Inv_wg_def step_def split: if_splits)
next
  case (CtxDone c e)
  with assms show ?thesis by (auto simp: Inv_wg_def step_def Ctx_done_def split: if_splits)
next
  case (SubmitStep c)
  with assms show ?thesis
    by (auto simp: Inv_wg_def step_def Submit_step_def split: if_splits submit_pc.splits option.splits)
next
  case (SubmitSend c)
  with assms show ?thesis by (auto simp: Inv_wg_def step_def Submit_send_def split: if_splits)
next
  case (SubmitHandoff c w)
  with assms show ?thesis
    by (auto simp: Inv_wg_def step_def Submit_handoff_def sum_list_map_update live_def split: if_splits)
next
  case (SubmitCancel c)
  with assms show ?thesis by (auto simp: Inv_wg_def step_def Submit_cancel_def split: if_splits)
next
  case CallShutdown
  with assms show ?thesis by (auto simp: Inv_wg_def step_def split: if_splits)
next
  case (ShutdownStep d)
  with assms show ?thesis
    by (auto simp: Inv_wg_def step_def Shutdown_step_def
        split: if_splits shutdown_pc.splits once_state.splits)
next
  case (ShutdownDone d)
  with assms show ?thesis by (auto simp: Inv_wg_def step_def Shutdown_done_def split: if_splits)
next
  case (ShutdownTimeoutFires d)
  with assms show ?thesis by (auto simp: Inv_wg_def step_def Shutdown_timeout_def split: if_splits)
next
  case WaiterStep
  with assms show ?thesis
    by (auto simp: Inv_wg_def step_def Waiter_step_def split: if_splits waiter.splits)
next
  case (WorkerStep w)
  with assms show ?thesis
    by (auto simp: Inv_wg_def step_def runWorker_step_def sum_list_map_update live_def
        split: if_splits worker.splits list.splits option.splits)
next
  case (JobReturns w r)
  with assms show ?thesis
    by (auto simp: Inv_wg_def step_def Job_returns_def sum_list_map_update live_def
        split: if_splits worker.splits)
next
  case (JobPanics w)
  with assms show ?thesis
    by (auto simp: Inv_wg_def step_def Job_panics_def split: if_splits worker.splits)
qed

lemma Inv_shutdown_frame:
  assumes "once s' = once s" and "shutdowns s' = shutdowns s" and "closed s' = closed s"
    and "ch_closed (jobs s') = ch_closed (jobs s)" and "waiter s' = waiter s"
    and "workerCtx s' = workerCtx s" and "cancelCalls s' = cancelCalls s"
    and "initiated s' = initiated s" and "timeout_taken s' = timeout_taken s"
    and "clean_taken s' = clean_taken s"
    and "Inv_shutdown s"
  shows "Inv_shutdown s'"
  using assms(11) unfolding Inv_shutdown_def assms(1-10) .

lemma Inv_shutdown_CallShutdown:
  assumes "Inv_shutdown s"
  shows "Inv_shutdown (s\<lparr>shutdowns := shutdowns s @ [\<lparr>d_pc = DOnce, shutdownErr = None\<rparr>]\<rparr>)"
proof (cases "once s")
  case OnceIdle
  with assms show ?thesis by (auto simp: log_defs Inv_shutdown_def)
next
  case (OnceRunning d)
  with assms show ?thesis
    by (auto simp: log_defs Inv_shutdown_def nth_append less_Suc_eq)
next
  case (OnceDone d)
  with assms show ?thesis
    by (auto simp: log_defs Inv_shutdown_def nth_append less_Suc_eq)
qed

lemma Inv_shutdown_Waiter:
  assumes "Inv_shutdown s" and "Waiter_step s = Some s'"
  shows "Inv_shutdown s'"
proof (cases "once s")
  case OnceIdle
  with assms show ?thesis by (auto simp: log_defs Inv_shutdown_def Waiter_step_def split: waiter.splits if_splits)
next
  case (OnceRunning d)
  with assms show ?thesis
    by (cases "d_pc (shutdowns s ! d)")
      (auto simp: log_defs Inv_shutdown_def Waiter_step_def split: waiter.splits if_splits)
next
  case (OnceDone d)
  with assms show ?thesis
    by (auto simp: log_defs Inv_shutdown_def Waiter_step_def split: waiter.splits if_splits)
qed

lemma Inv_shutdown_active:
  assumes "Inv_shutdown s" and "d < length (shutdowns s)"
    and "d_pc (shutdowns s ! d) \<noteq> DOnce" and "\<forall>r. d_pc (shutdowns s ! d) \<noteq> DReturned r"
  shows "once s = OnceRunning d"
proof (cases "once s")
  case OnceIdle
  with assms show ?thesis by (auto simp: log_defs Inv_shutdown_def dest: nth_mem)
next
  case (OnceRunning r)
  with assms show ?thesis by (cases "d = r") (auto simp: log_defs Inv_shutdown_def)
next
  case (OnceDone r)
  with assms show ?thesis by (cases "d = r") (auto simp: log_defs Inv_shutdown_def)
qed

lemma Inv_shutdown_Shutdown_step:
  assumes "Inv_shutdown s" and "Shutdown_step d s = Some s'"
  shows "Inv_shutdown s'"
proof -
  from assms(2) have len: "d < length (shutdowns s)"
    by (auto simp: Shutdown_step_def split: if_splits)
  show ?thesis
  proof (cases "d_pc (shutdowns s ! d) = DOnce")
    case True
    show ?thesis
    proof (cases "once s")
      case OnceIdle
      with assms True len show ?thesis
        by (auto simp: log_defs Inv_shutdown_def Shutdown_step_def nth_list_update dest: nth_mem)
    next
      case (OnceRunning r)
      with assms True len show ?thesis
        by (auto simp: Shutdown_step_def)
    next
      case (OnceDone r)
      with assms True len show ?thesis
        by (cases "d = r") (auto simp: log_defs Inv_shutdown_def Shutdown_step_def nth_list_update)
    qed
  next
    case False
    from assms(2) len have nr: "\<forall>r. d_pc (shutdowns s ! d) \<noteq> DReturned r"
      by (auto simp: Shutdown_step_def)
    from Inv_shutdown_active [OF assms(1) len False nr] have o: "once s = OnceRunning d" .
    with assms len show ?thesis
      by (cases "d_pc (shutdowns s ! d)")
        (auto simp: log_defs Inv_shutdown_def Shutdown_step_def nth_list_update split: if_splits)
  qed
qed

lemma Inv_shutdown_Shutdown_done:
  assumes "Inv_shutdown s" and "Shutdown_done d s = Some s'"
  shows "Inv_shutdown s'"
proof -
  from assms(2) have len: "d < length (shutdowns s)" and pc: "d_pc (shutdowns s ! d) = DSelect"
    by (auto simp: Shutdown_done_def split: if_splits)
  from Inv_shutdown_active [OF assms(1) len] pc have o: "once s = OnceRunning d"
    by simp
  with assms len pc show ?thesis
    by (auto simp: log_defs Inv_shutdown_def Shutdown_done_def nth_list_update split: if_splits)
qed

lemma Inv_shutdown_Shutdown_timeout:
  assumes "Inv_shutdown s" and "Shutdown_timeout d s = Some s'"
  shows "Inv_shutdown s'"
proof -
  from assms(2) have len: "d < length (shutdowns s)" and pc: "d_pc (shutdowns s ! d) = DSelect"
    by (auto simp: Shutdown_timeout_def split: if_splits)
  from Inv_shutdown_active [OF assms(1) len] pc have o: "once s = OnceRunning d"
    by simp
  with assms len pc show ?thesis
    by (auto simp: log_defs Inv_shutdown_def Shutdown_timeout_def nth_list_update split: if_splits)
qed

lemma Inv_shutdown_step:
  assumes "Inv_shutdown s" and "step ev s = Some s'"
  shows "Inv_shutdown s'"
proof (cases ev)
  case (CallSubmit ctx job)
  with assms(2) show ?thesis
    by (intro Inv_shutdown_frame [OF _ _ _ _ _ _ _ _ _ _ assms(1)]) (auto simp: log_defs step_def split: if_splits)
next
  case (CtxDone c e)
  with assms(2) show ?thesis
    by (intro Inv_shutdown_frame [OF _ _ _ _ _ _ _ _ _ _ assms(1)])
      (auto simp: log_defs step_def Ctx_done_def split: if_splits)
next
  case (SubmitStep c)
  with assms(2) show ?thesis
    by (intro Inv_shutdown_frame [OF _ _ _ _ _ _ _ _ _ _ assms(1)])
      (auto simp: log_defs step_def Submit_step_def split: if_splits submit_pc.splits option.splits)
next
  case (SubmitSend c)
  with assms(2) show ?thesis
    by (intro Inv_shutdown_frame [OF _ _ _ _ _ _ _ _ _ _ assms(1)])
      (auto simp: log_defs step_def Submit_send_def split: if_splits)
next
  case (SubmitHandoff c w)
  with assms(2) show ?thesis
    by (intro Inv_shutdown_frame [OF _ _ _ _ _ _ _ _ _ _ assms(1)])
      (auto simp: log_defs step_def Submit_handoff_def split: if_splits)
next
  case (SubmitCancel c)
  with assms(2) show ?thesis
    by (intro Inv_shutdown_frame [OF _ _ _ _ _ _ _ _ _ _ assms(1)])
      (auto simp: log_defs step_def Submit_cancel_def split: if_splits)
next
  case CallShutdown
  with assms show ?thesis
    by (auto simp: log_defs step_def Inv_shutdown_CallShutdown split: if_splits)
next
  case (ShutdownStep d)
  with assms show ?thesis
    by (auto simp: log_defs step_def split: if_splits intro: Inv_shutdown_Shutdown_step)
next
  case (ShutdownDone d)
  with assms show ?thesis
    by (auto simp: log_defs step_def split: if_splits intro: Inv_shutdown_Shutdown_done)
next
  case (ShutdownTimeoutFires d)
  with assms show ?thesis
    by (auto simp: log_defs step_def split: if_splits intro: Inv_shutdown_Shutdown_timeout)
next
  case WaiterStep
  with assms show ?thesis
    by (auto simp: log_defs step_def split: if_splits intro: Inv_shutdown_Waiter)
next
  case (WorkerStep w)
  with assms(2) show ?thesis
    by (intro Inv_shutdown_frame [OF _ _ _ _ _ _ _ _ _ _ assms(1)])
      (auto simp: log_defs step_def runWorker_step_def
        split: if_splits worker.splits list.splits option.splits)
next
  case (JobReturns w r)
  with assms(2) show ?thesis
    by (intro Inv_shutdown_frame [OF _ _ _ _ _ _ _ _ _ _ assms(1)])
      (auto simp: log_defs step_def Job_returns_def split: if_splits worker.splits)
next
  case (JobPanics w)
  with assms(2) show ?thesis
    by (intro Inv_shutdown_frame [OF _ _ _ _ _ _ _ _ _ _ assms(1)])
      (auto simp: log_defs step_def Job_panics_def split: if_splits worker.splits)
qed

lemma in_set_updateD: "x \<in> set (ws[w := y]) \<Longrightarrow> x = y \<or> x \<in> set ws"
  using set_update_subset_insert [of ws w y] by auto

lemma set_in_flight: "set (in_flight s) = set (ch_buf (jobs s)) \<union> held (workers s)"
  by (simp add: in_flight_def held_def)

lemma held_update_subset: "held (ws[w := y]) \<subseteq> set (holds y) \<union> held ws"
  by (auto simp: held_def dest!: in_set_updateD)

lemma held_nth: "w < length ws \<Longrightarrow> set (holds (ws ! w)) \<subseteq> held ws"
  by (auto simp: held_def intro: nth_mem)

lemma held_update_same:
  assumes "w < length ws" and "set (holds y) \<subseteq> set (holds (ws ! w))"
  shows "held (ws[w := y]) \<subseteq> held ws"
  using held_update_subset [of ws w y] held_nth [OF assms(1)] assms(2) by blast

lemma sent_ok_append: "sent_ok cs x \<Longrightarrow> sent_ok (cs @ [k]) x"
  by (auto simp: sent_ok_def nth_append)

lemma sent_ok_update:
  "sent_ok cs x \<Longrightarrow> s_pc (cs ! c) \<noteq> SReturned None \<Longrightarrow> sent_ok (cs[c := k]) x"
  by (cases "c = fst x") (auto simp: sent_ok_def)

lemma sent_ok_update_ctx:
  "sent_ok cs x \<Longrightarrow> sent_ok (cs[c := (cs ! c)\<lparr>s_ctx := e\<rparr>]) x"
  by (cases "c = fst x") (auto simp: sent_ok_def)

lemma Inv_flight_mono:
  assumes "Inv_flight s"
    and "\<And>x. x \<in> set (in_flight s') \<Longrightarrow> x \<in> set (in_flight s) \<or> sent_ok (submits s') x"
    and "\<And>x. sent_ok (submits s) x \<Longrightarrow> sent_ok (submits s') x"
  shows "Inv_flight s'"
  using assms unfolding Inv_flight_def by blast

lemma Inv_flight_frame:
  assumes "Inv_flight s" and "submits s' = submits s" and "ch_buf (jobs s') = ch_buf (jobs s)"
    and "workers s' = workers s"
  shows "Inv_flight s'"
  using assms by (simp add: Inv_flight_def in_flight_def)

lemma Inv_flight_subset:
  assumes "Inv_flight s" and "submits s' = submits s"
    and "set (in_flight s') \<subseteq> set (in_flight s)"
  shows "Inv_flight s'"
  using assms unfolding Inv_flight_def by auto

lemma runWorker_step_flight:
  assumes "runWorker_step w s = Some s'"
  shows "submits s' = submits s \<and> set (in_flight s') \<subseteq> set (in_flight s)"
proof -
  from assms have len: "w < length (workers s)"
    by (auto simp: runWorker_step_def split: if_splits)
  show ?thesis
  proof (cases "workers s ! w")
    case WStart
    with assms len held_update_same [of w "workers s" WFetch] show ?thesis
      by (auto simp: runWorker_step_def set_in_flight)
  next
    case WFetch
    show ?thesis
    proof (cases "ch_buf (jobs s)")
      case Nil
      with WFetch assms len held_update_same [of w "workers s" WDone] show ?thesis
        by (auto simp: runWorker_step_def set_in_flight split: if_splits)
    next
      case (Cons j rest)
      with WFetch assms len held_update_subset [of "workers s" w "WCheck j"] show ?thesis
        by (auto simp: runWorker_step_def set_in_flight)
    qed
  next
    case (WCheck j)
    with assms len held_update_same [of w "workers s" "WSkip j"]
      held_update_same [of w "workers s" "WBegin j"] show ?thesis
      by (auto simp: runWorker_step_def set_in_flight split: if_splits)
  next
    case (WSkip j)
    with assms len held_update_same [of w "workers s" WFetch] show ?thesis
      by (auto simp: runWorker_step_def set_in_flight)
  next
    case (WBegin j)
    with assms len held_update_same [of w "workers s" "WRun j"] show ?thesis
      by (auto simp: runWorker_step_def set_in_flight)
  next
    case (WRun j)
    with assms len show ?thesis
      by (auto simp: runWorker_step_def)
  next
    case (WRet j r)
    with assms len held_update_same [of w "workers s" WFetch] show ?thesis
      by (cases r) (auto simp: runWorker_step_def set_in_flight)
  next
    case WDone
    with assms len held_update_same [of w "workers s" WExited] show ?thesis
      by (auto simp: runWorker_step_def set_in_flight split: if_splits)
  next
    case WExited
    with assms len show ?thesis
      by (auto simp: runWorker_step_def)
  qed
qed

lemma Job_returns_flight:
  assumes "Job_returns w r s = Some s'"
  shows "submits s' = submits s \<and> set (in_flight s') \<subseteq> set (in_flight s)"
proof -
  from assms have len: "w < length (workers s)"
    by (auto simp: Job_returns_def split: if_splits)
  from assms len obtain j where j: "workers s ! w = WRun j"
    by (auto simp: Job_returns_def split: worker.splits)
  with assms len held_update_same [of w "workers s" "WRet j r"] show ?thesis
    by (auto simp: Job_returns_def set_in_flight)
qed

lemma Inv_flight_step:
  assumes "Inv_flight s" and "step ev s = Some s'"
  shows "Inv_flight s'"
proof (cases ev)
  case (CallSubmit ctx job)
  with assms(2) show ?thesis
    by (intro Inv_flight_mono [OF assms(1)])
      (auto simp: set_in_flight step_def sent_ok_append split: if_splits)
next
  case (CtxDone c e)
  with assms(2) show ?thesis
    by (intro Inv_flight_mono [OF assms(1)])
      (auto simp: set_in_flight step_def Ctx_done_def sent_ok_update_ctx split: if_splits)
next
  case (SubmitStep c)
  with assms(2) show ?thesis
    by (intro Inv_flight_mono [OF assms(1)])
      (auto simp: set_in_flight step_def Submit_step_def sent_ok_update
        split: if_splits submit_pc.splits option.splits)
next
  case (SubmitSend c)
  with assms(2) show ?thesis
    by (intro Inv_flight_mono [OF assms(1)])
      (auto simp: set_in_flight step_def Submit_send_def sent_ok_def nth_list_update
        split: if_splits)
next
  case (SubmitHandoff c w)
  with assms(2) show ?thesis
    by (intro Inv_flight_mono [OF assms(1)])
      (use held_update_subset [of "workers s" w "WCheck (c, s_job (submits s ! c))"] in
        \<open>auto simp: set_in_flight step_def Submit_handoff_def sent_ok_def nth_list_update
          split: if_splits\<close>)
next
  case (SubmitCancel c)
  with assms(2) show ?thesis
    by (intro Inv_flight_mono [OF assms(1)])
      (auto simp: set_in_flight step_def Submit_cancel_def sent_ok_update
        split: if_splits)
next
  case CallShutdown
  with assms show ?thesis
    by (auto simp: step_def split: if_splits intro!: Inv_flight_frame [OF assms(1)])
next
  case (ShutdownStep d)
  with assms show ?thesis
    by (auto simp: step_def Shutdown_step_def
        split: if_splits shutdown_pc.splits once_state.splits intro!: Inv_flight_frame [OF assms(1)])
next
  case (ShutdownDone d)
  with assms show ?thesis
    by (auto simp: step_def Shutdown_done_def split: if_splits intro!: Inv_flight_frame [OF assms(1)])
next
  case (ShutdownTimeoutFires d)
  with assms show ?thesis
    by (auto simp: step_def Shutdown_timeout_def split: if_splits intro!: Inv_flight_frame [OF assms(1)])
next
  case WaiterStep
  with assms show ?thesis
    by (auto simp: step_def Waiter_step_def split: if_splits waiter.splits intro!: Inv_flight_frame [OF assms(1)])
next
  case (WorkerStep w)
  with assms(2) have "runWorker_step w s = Some s'"
    by (auto simp: step_def split: if_splits)
  from runWorker_step_flight [OF this] assms(1) show ?thesis
    by (auto intro: Inv_flight_subset)
next
  case (JobReturns w r)
  with assms(2) have "Job_returns w r s = Some s'"
    by (auto simp: step_def split: if_splits)
  from Job_returns_flight [OF this] assms(1) show ?thesis
    by (auto intro: Inv_flight_subset)
next
  case (JobPanics w)
  with assms show ?thesis
    by (auto simp: step_def Job_panics_def split: if_splits worker.splits
        intro!: Inv_flight_frame [OF assms(1)])
qed

lemma Inv_calls_frame:
  assumes "Inv_calls s" and "submits s' = submits s"
  shows "Inv_calls s'"
  using assms by (simp add: Inv_calls_def)

lemma Inv_calls_update:
  assumes "Inv_calls s" and "call_ok (s_pc k) (s_ctx k)"
  shows "Inv_calls (s\<lparr>submits := (submits s)[c := k]\<rparr>)"
  using assms by (auto simp: Inv_calls_def dest!: in_set_updateD)

lemma Inv_calls_nth: "Inv_calls s \<Longrightarrow> c < length (submits s) \<Longrightarrow>
    call_ok (s_pc (submits s ! c)) (s_ctx (submits s ! c))"
  by (auto simp: Inv_calls_def)

lemma call_ok_ctx: "call_ok pc None \<Longrightarrow> call_ok pc (Some e)"
  by (induction pc "None :: error option" rule: call_ok.induct) auto

lemma Inv_calls_step:
  assumes "Inv_calls s" and "step ev s = Some s'"
  shows "Inv_calls s'"
proof (cases ev)
  case (CallSubmit ctx job)
  with assms show ?thesis
    by (auto simp: Inv_calls_def step_def split: if_splits)
next
  case (CtxDone c e)
  with assms(2) have len: "c < length (submits s)" and n: "s_ctx (submits s ! c) = None"
    and s': "s' = s\<lparr>submits := (submits s)[c := (submits s ! c)\<lparr>s_ctx := Some e\<rparr>]\<rparr>"
    by (auto simp: step_def Ctx_done_def split: if_splits)
  from Inv_calls_nth [OF assms(1) len] n
  have "call_ok (s_pc (submits s ! c)) (Some e)"
    by (auto intro: call_ok_ctx)
  with assms(1) show ?thesis
    unfolding s' by (intro Inv_calls_update) auto
next
  case (SubmitStep c)
  with assms(2) have len: "c < length (submits s)" and st: "Submit_step c s = Some s'"
    by (auto simp: step_def Submit_step_def split: if_splits)
  from Inv_calls_nth [OF assms(1) len] st len
  have "\<exists>k. submits s' = (submits s)[c := k] \<and> call_ok (s_pc k) (s_ctx k)"
    by (cases "s_pc (submits s ! c)")
      (auto simp: Submit_step_def split: option.splits if_splits)
  with assms(1) show ?thesis
    by (auto simp: Inv_calls_def dest!: in_set_updateD)
next
  case (SubmitSend c)
  with assms show ?thesis
    by (auto simp: Inv_calls_def step_def Submit_send_def split: if_splits dest!: in_set_updateD)
next
  case (SubmitHandoff c w)
  with assms show ?thesis
    by (auto simp: Inv_calls_def step_def Submit_handoff_def split: if_splits dest!: in_set_updateD)
next
  case (SubmitCancel c)
  with assms show ?thesis
    by (auto simp: Inv_calls_def step_def Submit_cancel_def split: if_splits dest!: in_set_updateD)
next
  case CallShutdown
  with assms show ?thesis
    by (auto simp: step_def split: if_splits intro!: Inv_calls_frame [OF assms(1)])
next
  case (ShutdownStep d)
  with assms show ?thesis
    by (auto simp: step_def Shutdown_step_def
        split: if_splits shutdown_pc.splits once_state.splits intro!: Inv_calls_frame [OF assms(1)])
next
  case (ShutdownDone d)
  with assms show ?thesis
    by (auto simp: step_def Shutdown_done_def split: if_splits intro!: Inv_calls_frame [OF assms(1)])
next
  case (ShutdownTimeoutFires d)
  with assms show ?thesis
    by (auto simp: step_def Shutdown_timeout_def split: if_splits intro!: Inv_calls_frame [OF assms(1)])
next
  case WaiterStep
  with assms show ?thesis
    by (auto simp: step_def Waiter_step_def split: if_splits waiter.splits intro!: Inv_calls_frame [OF assms(1)])
next
  case (WorkerStep w)
  with assms(2) have "runWorker_step w s = Some s'"
    by (auto simp: step_def split: if_splits)
  from runWorker_step_flight [OF this] assms(1) show ?thesis
    by (auto intro: Inv_calls_frame)
next
  case (JobReturns w r)
  with assms(2) have "Job_returns w r s = Some s'"
    by (auto simp: step_def split: if_splits)
  from Job_returns_flight [OF this] assms(1) show ?thesis
    by (auto intro: Inv_calls_frame)
next
  case (JobPanics w)
  with assms show ?thesis
    by (auto simp: step_def Job_panics_def split: if_splits worker.splits
        intro!: Inv_calls_frame [OF assms(1)])
qed

lemma Inv_count_frame:
  assumes "Inv_count s" and "submits s' = submits s"
    and "Submitted (metrics s') = Submitted (metrics s)"
    and "Dropped (metrics s') = Dropped (metrics s)"
  shows "Inv_count s'"
  using assms by (simp add: Inv_count_def)

lemma runWorker_step_count:
  assumes "runWorker_step w s = Some s'"
  shows "Submitted (metrics s') = Submitted (metrics s) \<and> Dropped (metrics s') = Dropped (metrics s)"
  using assms
  by (cases "workers s ! w")
    (auto simp: runWorker_step_def split: if_splits list.splits option.splits)

lemma Inv_count_step:
  assumes "Inv_count s" and "step ev s = Some s'"
  shows "Inv_count s'"
proof (cases ev)
  case (CallSubmit ctx job)
  with assms show ?thesis
    by (auto simp: Inv_count_def step_def split: if_splits)
next
  case (CtxDone c e)
  with assms show ?thesis
    by (auto simp: Inv_count_def step_def Ctx_done_def sum_list_map_update split: if_splits)
next
  case (SubmitStep c)
  with assms(2) have len: "c < length (submits s)" and st: "Submit_step c s = Some s'"
    by (auto simp: step_def Submit_step_def split: if_splits)
  from assms(1) st len show ?thesis
    by (cases "s_pc (submits s ! c)")
      (auto simp: Inv_count_def Submit_step_def sum_list_map_update split: option.splits if_splits)
next
  case (SubmitSend c)
  with assms show ?thesis
    by (auto simp: Inv_count_def step_def Submit_send_def sum_list_map_update split: if_splits)
next
  case (SubmitHandoff c w)
  with assms show ?thesis
    by (auto simp: Inv_count_def step_def Submit_handoff_def sum_list_map_update split: if_splits)
next
  case (SubmitCancel c)
  with assms show ?thesis
    by (auto simp: Inv_count_def step_def Submit_cancel_def sum_list_map_update split: if_splits)
next
  case CallShutdown
  with assms show ?thesis
    by (auto simp: step_def split: if_splits intro!: Inv_count_frame [OF assms(1)])
next
  case (ShutdownStep d)
  with assms show ?thesis
    by (auto simp: step_def Shutdown_step_def
        split: if_splits shutdown_pc.splits once_state.splits intro!: Inv_count_frame [OF assms(1)])
next
  case (ShutdownDone d)
  with assms show ?thesis
    by (auto simp: step_def Shutdown_done_def split: if_splits intro!: Inv_count_frame [OF assms(1)])
next
  case (ShutdownTimeoutFires d)
  with assms show ?thesis
    by (auto simp: step_def Shutdown_timeout_def split: if_splits intro!: Inv_count_frame [OF assms(1)])
next
  case WaiterStep
  with assms show ?thesis
    by (auto simp: step_def Waiter_step_def split: if_splits waiter.splits intro!: Inv_count_frame [OF assms(1)])
next
  case (WorkerStep w)
  with assms(2) have st: "runWorker_step w s = Some s'"
    by (auto simp: step_def split: if_splits)
  from runWorker_step_flight [OF st] runWorker_step_count [OF st] assms(1) show ?thesis
    by (auto intro: Inv_count_frame)
next
  case (JobReturns w r)
  with assms show ?thesis
    by (auto simp: step_def Job_returns_def split: if_splits worker.splits
        intro!: Inv_count_frame [OF assms(1)])
next
  case (JobPanics w)
  with assms show ?thesis
    by (auto simp: step_def Job_panics_def split: if_splits worker.splits
        intro!: Inv_count_frame [OF assms(1)])
qed

lemma New_Inv:
  assumes "New maxcap mem c = Inr (mem', s)"
  shows "Inv s"
  using assms
  by (auto simp: New_def withDefaults_last makechan_def spawn_eq Let_def Inv_def Inv_wg_def
      Inv_shutdown_def log_defs live_def sum_list_replicate Inv_flight_def in_flight_def
      Inv_calls_def Inv_count_def
      split: if_splits option.splits)

lemma Inv_step: "Inv s \<Longrightarrow> step ev s = Some s' \<Longrightarrow> Inv s'"
  by (auto simp: Inv_def
      intro: Inv_wg_step Inv_shutdown_step Inv_flight_step Inv_calls_step Inv_count_step)

lemma Inv_run: "Inv s \<Longrightarrow> run evs s = Some s' \<Longrightarrow> Inv s'"
proof (induction evs arbitrary: s)
  case Nil
  then show ?case by simp
next
  case (Cons ev evs)
  then show ?case by (auto split: option.splits dest: Inv_step)
qed

lemma exec_Inv: "exec maxcap c evs = Some s \<Longrightarrow> Inv s"
  by (auto simp: exec_def split: sum.splits dest: New_Inv Inv_run)


section \<open>Shutdown\<close>

lemmas eval_defs = exec_def New_def withDefaults_def load_def makechan_def log_Default_def
  Second_def step_defs



text \<open>
  C1, as the code has it. \<open>shutdownErr\<close> is a local variable of each call, and only the
  call that runs the function of the \<open>Once\<close> ever assigns to it. In the run with the
  forced shutdown the first call returns \<open>ErrShutdownTimeout\<close> and the second call
  returns \<open>nil\<close>: not the outcome of the first.
\<close>

theorem Shutdown_later_call_returns_nil_after_timeout:
  "map_option Shutdown_results (exec 1000 small_pool forced_shutdown)
     = Some [DReturned (Some ErrShutdownTimeout), DReturned None]"
  by (simp add: small_pool_def forced_shutdown_def eval_defs Shutdown_results_def)

text \<open>
  C1, amended: \<open>Shutdown\<close> can be called any number of times. The drain/cancel protocol
  is performed at most once in every reachable state, and exactly once as soon as any
  call has returned; every call other than the one that performed it returns \<open>nil\<close>
  (which is the outcome of the first call only when that was \<open>nil\<close>), and a call that
  finds the \<open>Once\<close> done returns \<open>nil\<close> in one step that changes nothing else.
\<close>

theorem Shutdown_once:
  assumes "exec maxcap c evs = Some s"
  shows "initiated s \<le> 1 \<and>
         (\<forall>d < length (shutdowns s). \<forall>r. d_pc (shutdowns s ! d) = DReturned r \<longrightarrow>
            initiated s = 1 \<and> (once s \<noteq> OnceDone d \<longrightarrow> r = None)) \<and>
         (\<forall>d < length (shutdowns s). \<forall>r.
            panicked s = None \<and> once s = OnceDone r \<and> d_pc (shutdowns s ! d) = DOnce \<longrightarrow>
            step (ShutdownStep d) s =
              Some (s\<lparr>shutdowns := (shutdowns s)[d := (shutdowns s ! d)\<lparr>d_pc := DReturned None\<rparr>]\<rparr>))"
proof -
  from exec_Inv [OF assms] have shi: "Inv_shutdown s"
    by (simp add: Inv_def)
  show ?thesis
  proof (cases "once s")
    case OnceIdle
    with shi show ?thesis by (auto simp: Inv_shutdown_def dest: nth_mem)
  next
    case (OnceRunning r)
    with shi have o: "\<And>i. i < length (shutdowns s) \<Longrightarrow> i \<noteq> r \<Longrightarrow> d_pc (shutdowns s ! i) = DOnce"
      and i: "initiated s = 1"
      and r: "running_ok (d_pc (shutdowns s ! r)) (closed s) (ch_closed (jobs s)) (waiter s)
            (workerCtx s) (cancelCalls s) (timeout_taken s)"
      by (auto simp: Inv_shutdown_def)
    have "\<And>d x. d < length (shutdowns s) \<Longrightarrow> d_pc (shutdowns s ! d) \<noteq> DReturned x"
    proof -
      fix d x assume d: "d < length (shutdowns s)"
      show "d_pc (shutdowns s ! d) \<noteq> DReturned x"
      proof (cases "d = r")
        case True
        with r show ?thesis by auto
      next
        case False
        with o [OF d] show ?thesis by simp
      qed
    qed
    with OnceRunning i show ?thesis by auto
  next
    case (OnceDone r)
    with shi have o: "\<And>i. i < length (shutdowns s) \<Longrightarrow> i \<noteq> r \<Longrightarrow>
         (d_pc (shutdowns s ! i) = DOnce \<or> d_pc (shutdowns s ! i) = DReturned None) \<and>
         shutdownErr (shutdowns s ! i) = None"
      and i: "initiated s = 1"
      and r: "d_pc (shutdowns s ! r) = DReturned None \<or>
              d_pc (shutdowns s ! r) = DReturned (Some ErrShutdownTimeout)"
      by (auto simp: Inv_shutdown_def)
    have a: "\<forall>d < length (shutdowns s). \<forall>x. d_pc (shutdowns s ! d) = DReturned x \<longrightarrow>
            initiated s = 1 \<and> (once s \<noteq> OnceDone d \<longrightarrow> x = None)"
    proof (intro allI impI)
      fix d x
      assume d: "d < length (shutdowns s)" and x: "d_pc (shutdowns s ! d) = DReturned x"
      show "initiated s = 1 \<and> (once s \<noteq> OnceDone d \<longrightarrow> x = None)"
      proof (cases "d = r")
        case True
        with i OnceDone show ?thesis by simp
      next
        case False
        with o [OF d] x i show ?thesis by auto
      qed
    qed
    have b: "\<forall>d < length (shutdowns s). \<forall>x.
            panicked s = None \<and> once s = OnceDone x \<and> d_pc (shutdowns s ! d) = DOnce \<longrightarrow>
            step (ShutdownStep d) s =
              Some (s\<lparr>shutdowns := (shutdowns s)[d := (shutdowns s ! d)\<lparr>d_pc := DReturned None\<rparr>]\<rparr>)"
    proof (intro allI impI)
      fix d x
      assume d: "d < length (shutdowns s)"
        and h: "panicked s = None \<and> once s = OnceDone x \<and> d_pc (shutdowns s ! d) = DOnce"
      with r have "d \<noteq> r" by auto
      with o [OF d] have "shutdownErr (shutdowns s ! d) = None" by simp
      with d h show "step (ShutdownStep d) s =
              Some (s\<lparr>shutdowns := (shutdowns s)[d := (shutdowns s ! d)\<lparr>d_pc := DReturned None\<rparr>]\<rparr>)"
        by (simp add: step_def Shutdown_step_def)
    qed
    from a b i show ?thesis by simp
  qed
qed

theorem Shutdown_once_witness:
  "\<exists>s. exec 1000 small_pool (butlast forced_shutdown) = Some s \<and>
        initiated s = 1 \<and> once s = OnceDone 0 \<and> panicked s = None \<and>
        Shutdown_results s = [DReturned (Some ErrShutdownTimeout), DOnce] \<and>
        map_option Shutdown_results (step (ShutdownStep 1) s)
          = Some [DReturned (Some ErrShutdownTimeout), DReturned None]"
proof -
  let ?e = "exec 1000 small_pool (butlast forced_shutdown)"
  have ev: "?e = Some (the ?e)"
    by (simp add: small_pool_def forced_shutdown_def eval_defs)
  have facts: "once (the ?e) = OnceDone 0 \<and> panicked (the ?e) = None \<and>
      Shutdown_results (the ?e) = [DReturned (Some ErrShutdownTimeout), DOnce]"
    by (simp add: small_pool_def forced_shutdown_def eval_defs Shutdown_results_def)
  from Shutdown_once [OF ev] facts
  have "initiated (the ?e) = 1 \<and>
        step (ShutdownStep 1) (the ?e) =
          Some ((the ?e)\<lparr>shutdowns := (shutdowns (the ?e))
                  [1 := (shutdowns (the ?e) ! 1)\<lparr>d_pc := DReturned None\<rparr>]\<rparr>)"
    by (auto simp: Shutdown_results_def)
  with ev facts show ?thesis by (auto simp: Shutdown_results_def)
qed

section \<open>Submit\<close>

lemma pc_next_refl: "pc_next cl p p"
  by (simp add: pc_next_def)

lemma step_submits_frame:
  assumes "submits s' = submits s" and "c < length (submits s)"
  shows "c < length (submits s') \<and>
         pc_next (closed s) (s_pc (submits s ! c)) (s_pc (submits s' ! c))"
  using assms by (simp add: pc_next_refl)

lemma step_submits:
  assumes "step ev s = Some s'" and "c < length (submits s)"
  shows "c < length (submits s') \<and>
         pc_next (closed s) (s_pc (submits s ! c)) (s_pc (submits s' ! c))"
proof (cases ev)
  case (CallSubmit ctx job)
  with assms show ?thesis
    by (auto simp: step_def nth_append pc_next_refl split: if_splits)
next
  case (CtxDone c' e)
  with assms show ?thesis
    by (cases "c' = c") (auto simp: step_def Ctx_done_def pc_next_refl split: if_splits)
next
  case (SubmitStep c')
  with assms have st: "Submit_step c' s = Some s'"
    by (auto simp: step_def split: if_splits)
  show ?thesis
  proof (cases "c' = c")
    case True
    with st assms(2) show ?thesis
      by (cases "s_pc (submits s ! c)")
        (auto simp: Submit_step_def pc_next_def split: option.splits)
  next
    case False
    with st assms(2) show ?thesis
      by (cases "s_pc (submits s ! c')")
        (auto simp: Submit_step_def pc_next_refl split: option.splits if_splits)
  qed
next
  case (SubmitSend c')
  with assms show ?thesis
    by (cases "c' = c") (auto simp: step_def Submit_send_def pc_next_def split: if_splits)
next
  case (SubmitHandoff c' w)
  with assms show ?thesis
    by (cases "c' = c") (auto simp: step_def Submit_handoff_def pc_next_def split: if_splits)
next
  case (SubmitCancel c')
  with assms show ?thesis
    by (cases "c' = c") (auto simp: step_def Submit_cancel_def pc_next_def split: if_splits)
next
  case CallShutdown
  with assms show ?thesis
    by (auto simp: step_def split: if_splits intro!: step_submits_frame)
next
  case (ShutdownStep d)
  with assms have "submits s' = submits s"
    by (auto simp: step_def Shutdown_step_def
        split: if_splits shutdown_pc.splits once_state.splits)
  then show ?thesis using assms(2) by (rule step_submits_frame)
next
  case (ShutdownDone d)
  with assms have "submits s' = submits s"
    by (auto simp: step_def Shutdown_done_def split: if_splits)
  then show ?thesis using assms(2) by (rule step_submits_frame)
next
  case (ShutdownTimeoutFires d)
  with assms have "submits s' = submits s"
    by (auto simp: step_def Shutdown_timeout_def split: if_splits)
  then show ?thesis using assms(2) by (rule step_submits_frame)
next
  case WaiterStep
  with assms have "submits s' = submits s"
    by (auto simp: step_def Waiter_step_def split: if_splits waiter.splits)
  then show ?thesis using assms(2) by (rule step_submits_frame)
next
  case (WorkerStep w)
  with assms(1) have "runWorker_step w s = Some s'"
    by (auto simp: step_def split: if_splits)
  from runWorker_step_flight [OF this] have "submits s' = submits s" by simp
  then show ?thesis using assms(2) by (rule step_submits_frame)
next
  case (JobReturns w r)
  with assms(1) have "Job_returns w r s = Some s'"
    by (auto simp: step_def split: if_splits)
  from Job_returns_flight [OF this] have "submits s' = submits s" by simp
  then show ?thesis using assms(2) by (rule step_submits_frame)
next
  case (JobPanics w)
  with assms have "submits s' = submits s"
    by (auto simp: step_def Job_panics_def split: if_splits worker.splits)
  then show ?thesis using assms(2) by (rule step_submits_frame)
qed

lemma closed_step:
  assumes "step ev s = Some s'" and "closed s = 1"
  shows "closed s' = 1"
proof (cases ev)
  case (SubmitStep c)
  with assms show ?thesis
    by (cases "s_pc (submits s ! c)")
      (auto simp: step_def Submit_step_def split: if_splits option.splits)
next
  case (ShutdownStep d)
  with assms show ?thesis
    by (cases "d_pc (shutdowns s ! d)")
      (auto simp: step_def Shutdown_step_def split: if_splits once_state.splits)
next
  case (WorkerStep w)
  with assms show ?thesis
    by (cases "workers s ! w")
      (auto simp: step_def runWorker_step_def split: if_splits list.splits option.splits)
qed (use assms in \<open>auto simp: step_def Ctx_done_def Submit_send_def Submit_handoff_def
       Submit_cancel_def Shutdown_done_def Shutdown_timeout_def Waiter_step_def Job_returns_def
       Job_panics_def split: if_splits waiter.splits worker.splits\<close>)


lemma rejecting_run:
  assumes "run evs s = Some s'" and "c < length (submits s)" and "closed s = 1"
    and "rejecting (s_pc (submits s ! c))"
  shows "c < length (submits s') \<and> closed s' = 1 \<and> rejecting (s_pc (submits s' ! c))"
  using assms
proof (induction evs arbitrary: s)
  case Nil
  then show ?case by simp
next
  case (Cons ev evs)
  from Cons.prems(1) obtain s1 where s1: "step ev s = Some s1" and r: "run evs s1 = Some s'"
    by (auto split: option.splits)
  from step_submits [OF s1 Cons.prems(2)] Cons.prems(3,4)
  have "c < length (submits s1) \<and> rejecting (s_pc (submits s1 ! c))"
    by (auto simp: pc_next_def rejecting_def)
  moreover from closed_step [OF s1 Cons.prems(3)] have "closed s1 = 1" .
  ultimately show ?case using Cons.IH [OF r] by simp
qed

lemma run_append: "run (evs @ evs') s = (case run evs s of None \<Rightarrow> None | Some s1 \<Rightarrow> run evs' s1)"
  by (induction evs arbitrary: s) (auto split: option.splits)

lemma exec_run:
  assumes "exec maxcap c evs = Some s" and "run evs' s = Some s'"
  shows "exec maxcap c (evs @ evs') = Some s'"
  using assms by (auto simp: exec_def run_append split: sum.splits)

lemma not_in_flight:
  assumes "Inv s" and "c < length (submits s)" and "s_pc (submits s ! c) \<noteq> SReturned None"
  shows "c \<notin> fst ` set (in_flight s)"
proof
  assume "c \<in> fst ` set (in_flight s)"
  then obtain x where x: "x \<in> set (in_flight s)" and c: "fst x = c" by auto
  from assms(1) x have "sent_ok (submits s) x" by (auto simp: Inv_def Inv_flight_def)
  with c assms(3) show False by (auto simp: sent_ok_def)
qed

lemma errors_Is_refl: "errors_Is e e"
  by (cases e) auto

lemma Errorf_neq: "Errorf m e \<noteq> e"
proof
  assume "Errorf m e = e"
  then have "size (Errorf m e) = size e" by simp
  then show False by simp
qed

text \<open>
  C4: a call of \<open>Submit\<close> made when \<open>Shutdown\<close> has set \<open>closed\<close> to 1. The flag is never
  reset, so whatever the other goroutines do in between, the call is always on the path
  load, add to \<open>Dropped\<close>, \<open>return ErrPoolClosed\<close>; its job is never in the channel
  nor in the hands of a worker; each of its two steps can be taken at once (it never
  waits), the first changes nothing but the place of the call, and the second adds
  exactly one to \<open>Dropped\<close> and returns \<open>ErrPoolClosed\<close>.
\<close>

theorem Submit_after_Shutdown:
  assumes "exec maxcap c0 evs = Some s" and "closed s = 1"
    and "step (CallSubmit ctx job) s = Some s1" and "run evs' s1 = Some s'"
    and "c = length (submits s)"
  shows "c < length (submits s') \<and>
         (s_pc (submits s' ! c) = SLoadClosed \<or> s_pc (submits s' ! c) = SDropClosed \<or>
          s_pc (submits s' ! c) = SReturned (Some ErrPoolClosed)) \<and>
         c \<notin> fst ` set (in_flight s') \<and>
         (panicked s' = None \<and> s_pc (submits s' ! c) = SLoadClosed \<longrightarrow>
            step (SubmitStep c) s' =
              Some (s'\<lparr>submits := (submits s')[c := (submits s' ! c)\<lparr>s_pc := SDropClosed\<rparr>]\<rparr>)) \<and>
         (panicked s' = None \<and> s_pc (submits s' ! c) = SDropClosed \<longrightarrow>
            step (SubmitStep c) s' =
              Some (s'\<lparr>metrics := (metrics s')\<lparr>Dropped := Dropped (metrics s') + 1\<rparr>,
                      submits := (submits s')[c := (submits s' ! c)
                        \<lparr>s_pc := SReturned (Some ErrPoolClosed)\<rparr>]\<rparr>))"
proof -
  from assms(3) have s1: "s1 = s\<lparr>submits := submits s @ [\<lparr>s_pc = SLoadClosed, s_ctx = ctx, s_job = job\<rparr>]\<rparr>"
    by (auto simp: step_def split: if_splits)
  with assms(2,5) have a: "c < length (submits s1)" "closed s1 = 1"
    "rejecting (s_pc (submits s1 ! c))"
    by (auto simp: rejecting_def)
  from rejecting_run [OF assms(4) a]
  have len: "c < length (submits s')" and cl: "closed s' = 1"
    and rj: "rejecting (s_pc (submits s' ! c))"
    by simp_all
  have "exec maxcap c0 (evs @ CallSubmit ctx job # evs') = Some s'"
    using assms(1,3,4) by (intro exec_run [OF assms(1)]) simp
  then have inv: "Inv s'" by (rule exec_Inv)
  from rj have "s_pc (submits s' ! c) \<noteq> SReturned None" by (auto simp: rejecting_def)
  from not_in_flight [OF inv len this] have nf: "c \<notin> fst ` set (in_flight s')" .
  from len cl rj nf show ?thesis
    by (auto simp: rejecting_def step_def Submit_step_def)
qed

theorem Submit_after_Shutdown_witness:
  "\<exists>s s1 s'. exec 1000 small_pool closed_pool = Some s \<and> closed s = 1 \<and>
      step (CallSubmit None 9) s = Some s1 \<and>
      run [SubmitStep 0, SubmitStep 0] s1 = Some s' \<and>
      s_pc (submits s' ! 0) = SReturned (Some ErrPoolClosed) \<and>
      Dropped (metrics s') = 1 \<and> Submitted (metrics s') = 0 \<and>
      0 \<notin> fst ` set (in_flight s')"
proof -
  let ?s = "the (exec 1000 small_pool closed_pool)"
  let ?s1 = "the (step (CallSubmit None 9) ?s)"
  let ?s' = "the (run [SubmitStep 0, SubmitStep 0] ?s1)"
  have a: "exec 1000 small_pool closed_pool = Some ?s"
    by (simp add: small_pool_def closed_pool_def eval_defs)
  have b: "closed ?s = 1" "length (submits ?s) = 0"
    by (simp_all add: small_pool_def closed_pool_def eval_defs)
  have c: "step (CallSubmit None 9) ?s = Some ?s1"
    by (simp add: small_pool_def closed_pool_def eval_defs)
  have d: "run [SubmitStep 0, SubmitStep 0] ?s1 = Some ?s'"
    by (simp add: small_pool_def closed_pool_def eval_defs)
  have e: "s_pc (submits ?s' ! 0) = SReturned (Some ErrPoolClosed) \<and>
      Dropped (metrics ?s') = 1 \<and> Submitted (metrics ?s') = 0"
    by (simp add: small_pool_def closed_pool_def eval_defs)
  from Submit_after_Shutdown [OF a b(1) c d, of 0] b(2)
  have "0 \<notin> fst ` set (in_flight ?s')" by simp
  with a b c d e show ?thesis by blast
qed




text \<open>
  C8: a call of \<open>Submit\<close> that finds the pool closed changes no counter but \<open>Dropped\<close>.
  Its first step (the load of \<open>closed\<close>) leaves all five counters as they are, its
  second step adds one to \<open>Dropped\<close> and leaves \<open>Submitted\<close>, \<open>Started\<close>, \<open>Succeeded\<close> and
  \<open>Failed\<close> as they are; and in every reachable state \<open>Submitted\<close> is the sum of \<open>counted\<close>
  over the calls, in which a call on the path of a rejected call counts 0.
\<close>

theorem Submit_rejected_changes_only_Dropped:
  assumes "exec maxcap c0 evs = Some s" and "c < length (submits s)" and "panicked s = None"
  shows "(s_pc (submits s ! c) = SLoadClosed \<and> closed s = 1 \<longrightarrow>
            (\<exists>s'. step (SubmitStep c) s = Some s' \<and> s_pc (submits s' ! c) = SDropClosed \<and>
               metrics s' = metrics s)) \<and>
         (s_pc (submits s ! c) = SDropClosed \<longrightarrow>
            (\<exists>s'. step (SubmitStep c) s = Some s' \<and>
               s_pc (submits s' ! c) = SReturned (Some ErrPoolClosed) \<and>
               Submitted (metrics s') = Submitted (metrics s) \<and>
               Started (metrics s') = Started (metrics s) \<and>
               Succeeded (metrics s') = Succeeded (metrics s) \<and>
               Failed (metrics s') = Failed (metrics s) \<and>
               Dropped (metrics s') = Dropped (metrics s) + 1)) \<and>
         (rejecting (s_pc (submits s ! c)) \<longrightarrow> counted (s_pc (submits s ! c)) = 0) \<and>
         Submitted (metrics s) = (\<Sum>k\<leftarrow>submits s. counted (s_pc k))"
proof -
  from exec_Inv [OF assms(1)] have "Submitted (metrics s) = (\<Sum>k\<leftarrow>submits s. counted (s_pc k))"
    by (simp add: Inv_def Inv_count_def)
  with assms(2,3) show ?thesis
    by (auto simp: step_def Submit_step_def rejecting_def)
qed

theorem Submit_rejected_changes_only_Dropped_witness:
  "\<exists>s s'. exec 1000 small_pool (closed_pool @ [CallSubmit None 9, SubmitStep 0]) = Some s \<and>
      panicked s = None \<and> s_pc (submits s ! 0) = SDropClosed \<and>
      step (SubmitStep 0) s = Some s' \<and>
      s_pc (submits s' ! 0) = SReturned (Some ErrPoolClosed) \<and>
      Submitted (metrics s') = Submitted (metrics s) \<and>
      Started (metrics s') = Started (metrics s) \<and>
      Succeeded (metrics s') = Succeeded (metrics s) \<and>
      Failed (metrics s') = Failed (metrics s) \<and>
      Dropped (metrics s') = Dropped (metrics s) + 1 \<and>
      Submitted (metrics s) = 0"
proof -
  let ?s = "the (exec 1000 small_pool (closed_pool @ [CallSubmit None 9, SubmitStep 0]))"
  have a: "exec 1000 small_pool (closed_pool @ [CallSubmit None 9, SubmitStep 0]) = Some ?s"
    by (simp add: small_pool_def closed_pool_def eval_defs)
  have b: "0 < length (submits ?s)" "panicked ?s = None" "s_pc (submits ?s ! 0) = SDropClosed"
    by (simp_all add: small_pool_def closed_pool_def eval_defs)
  from Submit_rejected_changes_only_Dropped [OF a b(1,2)] b(3)
  obtain s' where c: "step (SubmitStep 0) ?s = Some s' \<and>
               s_pc (submits s' ! 0) = SReturned (Some ErrPoolClosed) \<and>
               Submitted (metrics s') = Submitted (metrics ?s) \<and>
               Started (metrics s') = Started (metrics ?s) \<and>
               Succeeded (metrics s') = Succeeded (metrics ?s) \<and>
               Failed (metrics s') = Failed (metrics ?s) \<and>
               Dropped (metrics s') = Dropped (metrics ?s) + 1"
    by auto
  have d: "Submitted (metrics ?s) = 0"
    by (simp add: small_pool_def closed_pool_def eval_defs)
  from a b c d
  have "exec 1000 small_pool (closed_pool @ [CallSubmit None 9, SubmitStep 0]) = Some ?s \<and>
      panicked ?s = None \<and> s_pc (submits ?s ! 0) = SDropClosed \<and>
      step (SubmitStep 0) ?s = Some s' \<and>
      s_pc (submits s' ! 0) = SReturned (Some ErrPoolClosed) \<and>
      Submitted (metrics s') = Submitted (metrics ?s) \<and>
      Started (metrics s') = Started (metrics ?s) \<and>
      Succeeded (metrics s') = Succeeded (metrics ?s) \<and>
      Failed (metrics s') = Failed (metrics ?s) \<and>
      Dropped (metrics s') = Dropped (metrics ?s) + 1 \<and>
      Submitted (metrics ?s) = 0"
    by blast
  then show ?thesis by (intro exI)
qed

text \<open>
  C9: what \<open>Submit\<close> returns. In every reachable state a call that has returned has
  returned \<open>nil\<close>, the sentinel \<open>ErrPoolClosed\<close>, or the value of
  \<open>fmt.Errorf("submit cancelled: %w", ctx.Err())\<close> for the \<open>Err()\<close> of its own context:
  a value that is not that error itself but that \<open>errors.Is\<close> unwraps to it. The package
  declares no sentinel for the cancelled case and no queue-full error. Each of the three
  results is returned in some run.
\<close>

theorem Submit_result_set:
  "(exec maxcap c0 evs = Some s \<and> c < length (submits s) \<and>
      s_pc (submits s ! c) = SReturned r \<longrightarrow>
      r = None \<or> r = Some ErrPoolClosed \<or>
      (\<exists>e. s_ctx (submits s ! c) = Some e \<and> r = Some (Errorf ''submit cancelled: '' e) \<and>
           r \<noteq> Some e \<and> errors_Is (Errorf ''submit cancelled: '' e) e)) \<and>
   (\<exists>evs s. exec 1000 small_pool evs = Some s \<and> s_pc (submits s ! 0) = SReturned None) \<and>
   (\<exists>evs s. exec 1000 small_pool evs = Some s \<and>
      s_pc (submits s ! 0) = SReturned (Some ErrPoolClosed)) \<and>
   (\<exists>evs s. exec 1000 small_pool evs = Some s \<and>
      s_ctx (submits s ! 1) = Some DeadlineExceeded \<and>
      s_pc (submits s ! 1) = SReturned (Some (Errorf ''submit cancelled: '' DeadlineExceeded)))"
proof -
  have sub: "exec maxcap c0 evs = Some s \<and> c < length (submits s) \<and>
      s_pc (submits s ! c) = SReturned r \<longrightarrow>
      r = None \<or> r = Some ErrPoolClosed \<or>
      (\<exists>e. s_ctx (submits s ! c) = Some e \<and> r = Some (Errorf ''submit cancelled: '' e) \<and>
           r \<noteq> Some e \<and> errors_Is (Errorf ''submit cancelled: '' e) e)"
  proof
    assume h: "exec maxcap c0 evs = Some s \<and> c < length (submits s) \<and>
      s_pc (submits s ! c) = SReturned r"
    then have "Inv_calls s" by (auto simp: Inv_def dest: exec_Inv)
    with h have ok: "call_ok (SReturned r) (s_ctx (submits s ! c))"
      by (auto dest: Inv_calls_nth)
    show "r = None \<or> r = Some ErrPoolClosed \<or>
      (\<exists>e. s_ctx (submits s ! c) = Some e \<and> r = Some (Errorf ''submit cancelled: '' e) \<and>
           r \<noteq> Some e \<and> errors_Is (Errorf ''submit cancelled: '' e) e)"
    proof (cases r)
      case None
      then show ?thesis by simp
    next
      case (Some x)
      with ok show ?thesis
        by (auto simp: errors_Is_refl Errorf_neq split: option.splits)
    qed
  qed
  have nil: "\<exists>evs s. exec 1000 small_pool evs = Some s \<and> s_pc (submits s ! 0) = SReturned None"
    by (intro exI [of _ "take 4 cancelled_submit"]
        exI [of _ "the (exec 1000 small_pool (take 4 cancelled_submit))"])
      (simp add: small_pool_def cancelled_submit_def eval_defs)
  have cl: "\<exists>evs s. exec 1000 small_pool evs = Some s \<and>
      s_pc (submits s ! 0) = SReturned (Some ErrPoolClosed)"
    by (intro exI [of _ "closed_pool @ [CallSubmit None 9, SubmitStep 0, SubmitStep 0]"]
        exI [of _ "the (exec 1000 small_pool
           (closed_pool @ [CallSubmit None 9, SubmitStep 0, SubmitStep 0]))"])
      (simp add: small_pool_def closed_pool_def eval_defs)
  have cn: "\<exists>evs s. exec 1000 small_pool evs = Some s \<and>
      s_ctx (submits s ! 1) = Some DeadlineExceeded \<and>
      s_pc (submits s ! 1) = SReturned (Some (Errorf ''submit cancelled: '' DeadlineExceeded))"
    by (intro exI [of _ "cancelled_submit @ [SubmitStep 1]"]
        exI [of _ "the (exec 1000 small_pool (cancelled_submit @ [SubmitStep 1]))"])
      (simp add: small_pool_def cancelled_submit_def eval_defs)
  from sub nil cl cn show ?thesis by blast
qed

theorem Submit_result_set_witness:
  "\<exists>s. exec 1000 small_pool (cancelled_submit @ [SubmitStep 1]) = Some s \<and>
      1 < length (submits s) \<and>
      s_pc (submits s ! 1) = SReturned (Some (Errorf ''submit cancelled: '' DeadlineExceeded)) \<and>
      s_ctx (submits s ! 1) = Some DeadlineExceeded \<and>
      errors_Is (Errorf ''submit cancelled: '' DeadlineExceeded) DeadlineExceeded"
proof -
  let ?s = "the (exec 1000 small_pool (cancelled_submit @ [SubmitStep 1]))"
  have a: "exec 1000 small_pool (cancelled_submit @ [SubmitStep 1]) = Some ?s"
    by (simp add: small_pool_def cancelled_submit_def eval_defs)
  have b: "1 < length (submits ?s)"
    "s_pc (submits ?s ! 1) = SReturned (Some (Errorf ''submit cancelled: '' DeadlineExceeded))"
    by (simp_all add: small_pool_def cancelled_submit_def eval_defs)
  from Submit_result_set [of 1000 small_pool "cancelled_submit @ [SubmitStep 1]" ?s 1
      "Some (Errorf ''submit cancelled: '' DeadlineExceeded)"] a b
  have "s_ctx (submits ?s ! 1) = Some DeadlineExceeded \<and>
      errors_Is (Errorf ''submit cancelled: '' DeadlineExceeded) DeadlineExceeded"
    by auto
  with a b
  have "exec 1000 small_pool (cancelled_submit @ [SubmitStep 1]) = Some ?s \<and>
      1 < length (submits ?s) \<and>
      s_pc (submits ?s ! 1) = SReturned (Some (Errorf ''submit cancelled: '' DeadlineExceeded)) \<and>
      s_ctx (submits ?s ! 1) = Some DeadlineExceeded \<and>
      errors_Is (Errorf ''submit cancelled: '' DeadlineExceeded) DeadlineExceeded"
    by blast
  then show ?thesis by (intro exI)
qed

section \<open>runWorker and the counters\<close>



lemma Inv_metrics_frame:
  assumes "Inv_metrics s" and "metrics s' = metrics s" and "workers s' = workers s"
    and "submits s' = submits s" and "ch_buf (jobs s') = ch_buf (jobs s)"
    and "skipped s' = skipped s" and "workerCtx s' = workerCtx s"
  shows "Inv_metrics s'"
  using assms by (simp add: Inv_metrics_def)

lemma skipping_ge0: "0 \<le> skipping w"
  by (cases w) auto

lemma skipping_zero:
  assumes "(\<Sum>w\<leftarrow>ws. skipping w) = 0" and "w < length ws"
  shows "skipping (ws ! w) = 0"
proof -
  have "\<forall>x \<in> set (map skipping ws). x = 0"
    using assms(1) by (subst (asm) sum_list_nonneg_eq_0_iff) (auto simp: skipping_ge0)
  with assms(2) show ?thesis by (auto dest: nth_mem)
qed

lemma Inv_metrics_worker:
  assumes "Inv_metrics s" and "runWorker_step w s = Some s'"
  shows "Inv_metrics s'"
proof -
  from assms(2) have len: "w < length (workers s)"
    by (auto simp: runWorker_step_def split: if_splits)
  show ?thesis
  proof (cases "workers s ! w")
    case WStart
    with assms len show ?thesis
      by (auto simp: runWorker_step_def Inv_metrics_def sum_list_map_update skipped_def)
  next
    case WFetch
    with assms len show ?thesis
      by (cases "ch_buf (jobs s)")
        (auto simp: runWorker_step_def Inv_metrics_def sum_list_map_update skipped_def
          split: if_splits)
  next
    case (WCheck j)
    with assms len show ?thesis
      by (auto simp: runWorker_step_def Inv_metrics_def sum_list_map_update skipped_def
          split: if_splits)
  next
    case (WSkip j)
    with assms len skipping_zero [of "workers s" w] show ?thesis
      by (auto simp: runWorker_step_def Inv_metrics_def sum_list_map_update skipped_def)
  next
    case (WBegin j)
    with assms len show ?thesis
      by (auto simp: runWorker_step_def Inv_metrics_def sum_list_map_update skipped_def)
  next
    case (WRun j)
    with assms len show ?thesis
      by (auto simp: runWorker_step_def)
  next
    case (WRet j r)
    with assms len show ?thesis
      by (cases r)
        (auto simp: runWorker_step_def Inv_metrics_def sum_list_map_update skipped_def)
  next
    case WDone
    with assms len show ?thesis
      by (auto simp: runWorker_step_def Inv_metrics_def sum_list_map_update skipped_def
          split: if_splits)
  next
    case WExited
    with assms len show ?thesis
      by (auto simp: runWorker_step_def)
  qed
qed

lemma Inv_metrics_step:
  assumes "Inv_metrics s" and "step ev s = Some s'"
  shows "Inv_metrics s'"
proof (cases ev)
  case (CallSubmit ctx job)
  with assms show ?thesis
    by (auto simp: Inv_metrics_def step_def skipped_def split: if_splits)
next
  case (CtxDone c e)
  with assms show ?thesis
    by (auto simp: Inv_metrics_def step_def Ctx_done_def sum_list_map_update skipped_def
        split: if_splits)
next
  case (SubmitStep c)
  with assms(2) have len: "c < length (submits s)" and st: "Submit_step c s = Some s'"
    by (auto simp: step_def Submit_step_def split: if_splits)
  from assms(1) st len show ?thesis
    by (cases "s_pc (submits s ! c)")
      (auto simp: Inv_metrics_def Submit_step_def sum_list_map_update skipped_def
        split: option.splits if_splits)
next
  case (SubmitSend c)
  with assms show ?thesis
    by (auto simp: Inv_metrics_def step_def Submit_send_def sum_list_map_update skipped_def
        split: if_splits)
next
  case (SubmitHandoff c w)
  with assms show ?thesis
    by (auto simp: Inv_metrics_def step_def Submit_handoff_def sum_list_map_update skipped_def
        split: if_splits)
next
  case (SubmitCancel c)
  with assms show ?thesis
    by (auto simp: Inv_metrics_def step_def Submit_cancel_def sum_list_map_update skipped_def
        split: if_splits)
next
  case CallShutdown
  with assms show ?thesis
    by (auto simp: Inv_metrics_def step_def skipped_def split: if_splits)
next
  case (ShutdownStep d)
  with assms(2) have st: "Shutdown_step d s = Some s'"
    by (auto simp: step_def split: if_splits)
  with assms(1) show ?thesis
    by (cases "d_pc (shutdowns s ! d)")
      (auto simp: Inv_metrics_def Shutdown_step_def skipped_def
        split: if_splits once_state.splits)
next
  case (ShutdownDone d)
  with assms show ?thesis
    by (auto simp: Inv_metrics_def step_def Shutdown_done_def skipped_def split: if_splits)
next
  case (ShutdownTimeoutFires d)
  with assms show ?thesis
    by (auto simp: Inv_metrics_def step_def Shutdown_timeout_def skipped_def split: if_splits)
next
  case WaiterStep
  with assms show ?thesis
    by (auto simp: Inv_metrics_def step_def Waiter_step_def skipped_def
        split: if_splits waiter.splits)
next
  case (WorkerStep w)
  with assms show ?thesis
    by (auto simp: step_def split: if_splits intro: Inv_metrics_worker)
next
  case (JobReturns w r)
  with assms(2) have len: "w < length (workers s)" and st: "Job_returns w r s = Some s'"
    by (auto simp: step_def Job_returns_def split: if_splits)
  from assms(1) st len show ?thesis
    by (cases "workers s ! w")
      (auto simp: Inv_metrics_def Job_returns_def sum_list_map_update skipped_def)
next
  case (JobPanics w)
  with assms(2) have len: "w < length (workers s)" and st: "Job_panics w s = Some s'"
    by (auto simp: step_def Job_panics_def split: if_splits)
  from assms(1) st len show ?thesis
    by (cases "workers s ! w")
      (auto simp: Inv_metrics_def Job_panics_def skipped_def)
qed

lemma New_Inv_metrics:
  assumes "New maxcap mem c = Inr (mem', s)"
  shows "Inv_metrics s"
  using assms
  by (auto simp: New_def withDefaults_last makechan_def spawn_eq Let_def Inv_metrics_def
      skipped_def sum_list_replicate split: if_splits option.splits)

lemma Inv_metrics_run: "Inv_metrics s \<Longrightarrow> run evs s = Some s' \<Longrightarrow> Inv_metrics s'"
proof (induction evs arbitrary: s)
  case Nil
  then show ?case by simp
next
  case (Cons ev evs)
  then show ?case by (auto split: option.splits dest: Inv_metrics_step)
qed

lemma exec_Inv_metrics: "exec maxcap c evs = Some s \<Longrightarrow> Inv_metrics s"
  by (auto simp: exec_def split: sum.splits dest: New_Inv_metrics Inv_metrics_run)

lemma sent_le_counted: "(\<Sum>k\<leftarrow>cs. sent (s_pc k)) \<le> (\<Sum>k\<leftarrow>cs. counted (s_pc k))"
proof (rule sum_list_mono)
  fix k
  show "sent (s_pc k) \<le> counted (s_pc k)"
    by (cases "s_pc k" rule: counted.cases) auto
qed

lemma running_ge0: "0 \<le> running w"
  by (cases w) auto

lemma pending_ge0: "0 \<le> pending w"
  by (cases w) auto

lemma no_holds_sums:
  assumes "\<forall>w \<in> set ws. holds w = []"
  shows "(\<Sum>w\<leftarrow>ws. running w) = 0 \<and> (\<Sum>w\<leftarrow>ws. skipping w) = 0"
  using assms
proof (induction ws)
  case Nil
  then show ?case by simp
next
  case (Cons w ws)
  then show ?case by (cases w) auto
qed

text \<open>
  C2, as the code has it. A job that a worker receives after the worker context was
  cancelled is counted in \<open>Failed\<close> and not in \<open>Started\<close>. At the end of the run with the
  forced shutdown no job is in flight, the worker has exited, and the counters are
  \<open>Started = 1\<close>, \<open>Succeeded = 0\<close>, \<open>Failed = 2\<close>: \<open>Succeeded + Failed\<close> is above
  \<open>Started\<close>.
\<close>

theorem skipped_job_is_Failed_but_not_Started:
  "map_option Metrics_of (exec 1000 small_pool forced_shutdown)
     = Some \<lparr>Submitted = 2, Started = 1, Succeeded = 0, Failed = 2, Dropped = 0\<rparr> \<and>
   map_option in_flight (exec 1000 small_pool forced_shutdown) = Some [] \<and>
   map_option workers (exec 1000 small_pool forced_shutdown) = Some [WExited] \<and>
   map_option panicked (exec 1000 small_pool forced_shutdown) = Some None"
  by (simp add: small_pool_def forced_shutdown_def eval_defs Metrics_of_def in_flight_def)

text \<open>
  C2, amended: in every reachable state \<open>Started \<le> Submitted\<close>, and
  \<open>Succeeded + Failed \<le> Started + skipped\<close>, where \<open>skipped\<close> is the number of jobs that
  workers received after the forced cancellation and skipped; when no job is in flight
  (the queue is empty and no worker holds a job), \<open>Succeeded + Failed = Started + skipped\<close>;
  and as long as the worker context is not cancelled no job has been skipped, so that
  the bounds are those of the claim.
\<close>

theorem Metrics_invariants:
  assumes "exec maxcap c0 evs = Some s"
  shows "Started (metrics s) \<le> Submitted (metrics s) \<and>
         Succeeded (metrics s) + Failed (metrics s) \<le> Started (metrics s) + skipped s \<and>
         (in_flight s = [] \<longrightarrow>
            Succeeded (metrics s) + Failed (metrics s) = Started (metrics s) + skipped s) \<and>
         (workerCtx s = None \<longrightarrow> skipped s = 0)"
proof -
  from exec_Inv_metrics [OF assms]
  have eq: "Succeeded (metrics s) + Failed (metrics s) +
        (\<Sum>w\<leftarrow>workers s. running w) + (\<Sum>w\<leftarrow>workers s. skipping w)
        = Started (metrics s) + skipped s"
    and le: "Started (metrics s) + int (length (ch_buf (jobs s))) + (\<Sum>w\<leftarrow>workers s. pending w)
        \<le> (\<Sum>k\<leftarrow>submits s. sent (s_pc k))"
    and nc: "workerCtx s = None \<longrightarrow> skipped s = 0"
    by (simp_all add: Inv_metrics_def)
  from exec_Inv [OF assms] have sub: "Submitted (metrics s) = (\<Sum>k\<leftarrow>submits s. counted (s_pc k))"
    by (simp add: Inv_def Inv_count_def)
  have r0: "0 \<le> (\<Sum>w\<leftarrow>workers s. running w)"
    by (rule sum_list_nonneg) (auto simp: running_ge0)
  have k0: "0 \<le> (\<Sum>w\<leftarrow>workers s. skipping w)"
    by (rule sum_list_nonneg) (auto simp: skipping_ge0)
  have p0: "0 \<le> (\<Sum>w\<leftarrow>workers s. pending w)"
    by (rule sum_list_nonneg) (auto simp: pending_ge0)
  from le p0 sent_le_counted [of "submits s"] sub
  have a: "Started (metrics s) \<le> Submitted (metrics s)" by simp
  from eq r0 k0
  have b: "Succeeded (metrics s) + Failed (metrics s) \<le> Started (metrics s) + skipped s"
    by simp
  have c: "in_flight s = [] \<longrightarrow>
            Succeeded (metrics s) + Failed (metrics s) = Started (metrics s) + skipped s"
  proof
    assume "in_flight s = []"
    then have "\<forall>w \<in> set (workers s). holds w = []"
      by (auto simp: in_flight_def)
    from no_holds_sums [OF this] eq
    show "Succeeded (metrics s) + Failed (metrics s) = Started (metrics s) + skipped s"
      by simp
  qed
  from a b c nc show ?thesis by simp
qed

theorem Metrics_invariants_witness:
  "\<exists>s. exec 1000 small_pool forced_shutdown = Some s \<and> in_flight s = [] \<and>
      skipped s = 1 \<and> Started (metrics s) \<le> Submitted (metrics s) \<and>
      Succeeded (metrics s) + Failed (metrics s) = Started (metrics s) + skipped s"
proof -
  let ?s = "the (exec 1000 small_pool forced_shutdown)"
  have a: "exec 1000 small_pool forced_shutdown = Some ?s"
    by (simp add: small_pool_def forced_shutdown_def eval_defs)
  have b: "in_flight ?s = []" "skipped ?s = 1"
    by (simp_all add: small_pool_def forced_shutdown_def eval_defs in_flight_def skipped_def)
  from Metrics_invariants [OF a] b(1)
  have "Started (metrics ?s) \<le> Submitted (metrics ?s) \<and>
      Succeeded (metrics ?s) + Failed (metrics ?s) = Started (metrics ?s) + skipped ?s"
    by simp
  with a b
  have "exec 1000 small_pool forced_shutdown = Some ?s \<and> in_flight ?s = [] \<and>
      skipped ?s = 1 \<and> Started (metrics ?s) \<le> Submitted (metrics ?s) \<and>
      Succeeded (metrics ?s) + Failed (metrics ?s) = Started (metrics ?s) + skipped ?s"
    by blast
  then show ?thesis by (intro exI)
qed

end
